theory Spec2Isabelle
  imports Complex_Main
begin

section \<open>The classical post-processing of \<open>shor_qpe\<close>\<close>

text \<open>
  The notebook's function \<open>shor_qpe(k)\<close> builds a phase-estimation circuit, runs it with a
  single shot and post-processes the measured bit string: the string is read as a binary
  fraction, \<open>Fraction.limit_denominator(15)\<close> turns it into a guess \<open>r\<close> for the period, and
  the two numbers \<open>gcd(a**(r//2) - 1, N)\<close> and \<open>gcd(a**(r//2) + 1, N)\<close> are the guesses for a
  factor. The \<open>while gcheck:\<close> loop repeats this until one guess is a non-trivial factor.

  The circuit and the simulator are outside the model: one execution of the circuit is a
  function from the number of executions made so far to the measured bit string. All the
  arithmetic is on Python's unbounded integers (\<open>int\<close>) and on \<open>Fraction\<close> (\<open>rat\<close>). The
  notebook imports nothing: \<open>gcd\<close> is read as \<open>math.gcd\<close> and \<open>Fraction\<close> as
  \<open>fractions.Fraction\<close>.
\<close>

subsection \<open>Errors\<close>

text \<open>
  The exceptions the post-processing can raise: \<open>int(s, 2)\<close> raises \<open>ValueError\<close> on an
  empty string, as \<open>print\<close> does on an integer of more than 4300 decimal digits and
  \<open>limit_denominator\<close> on a bound below 1; \<open>//\<close>, \<open>%\<close> and \<open>Fraction(p, 0)\<close> raise
  \<open>ZeroDivisionError\<close>.
\<close>

datatype error = ValueError | ZeroDivisionError

subsection \<open>The measured bit string\<close>

text \<open>
  A key of \<open>qcirc_counts\<close> is a string over the characters 0 and 1, one per classical
  bit, the most significant first: a list of bits. \<open>int(init_phase, 2)\<close> is its value
  and \<open>len(str(init_phase))\<close> its length.
\<close>

definition int_base2 :: "bool list \<Rightarrow> error + int" where
  "int_base2 init_phase =
     (if init_phase = [] then Inl ValueError
      else Inr (foldl (\<lambda>v b. 2 * v + (if b then 1 else 0)) 0 init_phase))"

text \<open>
  \<open>print("DECIMAL PHASE=", converted_phase)\<close> writes the value in decimal. Python 3.11
  converts an integer to a decimal string of at most \<open>sys.get_int_max_str_digits()\<close>
  digits, 4300 unless changed, which the notebook does not do; on an integer with more
  digits the conversion, and so \<open>print\<close>, raises \<open>ValueError\<close>. \<open>decimal_digits v\<close> is
  the number of digits of \<open>v \<ge> 0\<close>, that is \<open>len(str(v))\<close>. The other calls of \<open>print\<close>
  write a string, a float, the period guess \<open>r\<close>, which is at most 15, and the guesses,
  which are divisors of the 15 that \<open>shor_qpe\<close> assigns to \<open>N\<close>: they do not raise.
\<close>

function decimal_digits :: "int \<Rightarrow> int" where
  "decimal_digits v = (if v < 10 then 1 else 1 + decimal_digits (v div 10))"
  by pat_completeness auto
termination
  by (relation "measure nat") simp_all

declare decimal_digits.simps [simp del]

text \<open>
  \<open>phase_final = converted_phase/(2**int(lenth))\<close>. Python's quotient of two integers is
  a float, and CPython rounds it correctly: it is the binary64 number nearest to the
  exact quotient, a tie going to the even significand. For a quotient \<open>v / 2**len\<close> with
  \<open>0 < v < 2**len\<close>, whose leading bit has the exponent \<open>e = v.bit_length() - 1 - len\<close>,
  the last place of the significand has the exponent \<open>e - 52\<close>, or \<open>-1074\<close> for a
  subnormal number; the quotient is below 1, so the division never overflows.
  \<open>scale2 x e\<close> is \<open>x * 2**e\<close>.
\<close>

function bit_length :: "int \<Rightarrow> int" where
  "bit_length v = (if v \<le> 0 then 0 else 1 + bit_length (v div 2))"
  by pat_completeness auto
termination
  by (relation "measure nat") simp_all

declare bit_length.simps [simp del]

definition round_half_even :: "rat \<Rightarrow> int" where
  "round_half_even x =
     (let f = \<lfloor>x\<rfloor>;
          rest = x - of_int f
      in if rest < 1 / 2 then f
         else if 1 / 2 < rest then f + 1
         else if even f then f else f + 1)"

definition scale2 :: "rat \<Rightarrow> int \<Rightarrow> rat" where
  "scale2 x e = (if 0 \<le> e then x * 2 ^ nat e else x / 2 ^ nat (- e))"

definition true_divide_pow2 :: "int \<Rightarrow> nat \<Rightarrow> rat" where
  "true_divide_pow2 v len =
     (if v = 0 then 0
      else
        let e = bit_length v - 1 - int len;
            u = max (e - 52) (- 1074)
        in scale2 (of_int (round_half_even (scale2 (of_int v) (- int len - u)))) u)"

text \<open>
  From the measured string to the phase: \<open>int(init_phase, 2)\<close>, the \<open>print\<close> of the
  value, then the quotient. \<open>Fraction(phase_final)\<close> is the exact value of the float.
  The circuit has \<open>m = 8\<close> classical bits, so a measured string has 8 characters; the
  post-processing takes a string of any length.
\<close>

definition phase_final :: "bool list \<Rightarrow> error + rat" where
  "phase_final init_phase =
     (case int_base2 init_phase of
        Inl e \<Rightarrow> Inl e
      | Inr converted_phase \<Rightarrow>
          if 4300 < decimal_digits converted_phase then Inl ValueError
          else Inr (true_divide_pow2 converted_phase (length init_phase)))"

subsection \<open>\<open>Fraction.limit_denominator\<close>\<close>

text \<open>
  The library function of Python 3.11, \<open>fractions.py\<close>:
  \<^verbatim>\<open>
    if max_denominator < 1:
        raise ValueError("max_denominator should be at least 1")
    if self._denominator <= max_denominator:
        return Fraction(self)
    p0, q0, p1, q1 = 0, 1, 1, 0
    n, d = self._numerator, self._denominator
    while True:
        a = n//d
        q2 = q0+a*q1
        if q2 > max_denominator:
            break
        p0, q0, p1, q1 = p1, q1, p0+a*p1, q2
        n, d = d, n-a*d
    k = (max_denominator-q0)//q1
    bound1 = Fraction(p0+k*p1, q0+k*q1)
    bound2 = Fraction(p1, q1)
    if abs(bound2 - self) <= abs(bound1-self):
        return bound2
    else:
        return bound1
  \<close>
  A \<open>Fraction\<close> is a rational in lowest terms with a positive denominator:
  \<open>quotient_of\<close> gives its \<open>_numerator\<close> and \<open>_denominator\<close>. The \<open>while True\<close> loop
  is a recursion on \<open>d\<close>, whose absolute value decreases; it leaves by \<open>break\<close> or by the
  division by zero.
\<close>

function ld_loop ::
  "int \<Rightarrow> int \<Rightarrow> int \<Rightarrow> int \<Rightarrow> int \<Rightarrow> int \<Rightarrow> int
     \<Rightarrow> error + (int \<times> int \<times> int \<times> int \<times> int \<times> int)" where
  "ld_loop max_denominator p0 q0 p1 q1 n d =
     (if d = 0 then Inl ZeroDivisionError
      else
        let a = n div d;
            q2 = q0 + a * q1
        in if q2 > max_denominator then Inr (p0, q0, p1, q1, n, d)
           else ld_loop max_denominator p1 q1 (p0 + a * p1) q2 d (n - a * d))"
  by pat_completeness auto
termination
proof (relation "measure (\<lambda>(M, p0, q0, p1, q1, n, d). nat \<bar>d\<bar>)")
  show "wf (measure (\<lambda>(M, p0, q0, p1, q1, n, d). nat \<bar>d\<bar>))"
    by simp
next
  fix max_denominator p0 q0 p1 q1 n d :: int and a q2 :: int
  assume d: "d \<noteq> 0" and a: "a = n div d"
  have "n - a * d = n mod d"
    using a by (simp add: minus_div_mult_eq_mod)
  moreover have "\<bar>n mod d\<bar> < \<bar>d\<bar>"
    using d by (rule abs_mod_less)
  ultimately show
    "((max_denominator, p1, q1, p0 + a * p1, q2, d, n - a * d),
      (max_denominator, p0, q0, p1, q1, n, d))
       \<in> measure (\<lambda>(M, p0, q0, p1, q1, n, d). nat \<bar>d\<bar>)"
    by simp
qed

declare ld_loop.simps [simp del]

definition limit_denominator :: "rat \<Rightarrow> int \<Rightarrow> error + rat" where
  "limit_denominator self max_denominator =
     (if max_denominator < 1 then Inl ValueError
      else if snd (quotient_of self) \<le> max_denominator then Inr self
      else
        case ld_loop max_denominator 0 1 1 0 (fst (quotient_of self)) (snd (quotient_of self)) of
          Inl e \<Rightarrow> Inl e
        | Inr (p0, q0, p1, q1, n, d) \<Rightarrow>
            if q1 = 0 then Inl ZeroDivisionError
            else
              let k = (max_denominator - q0) div q1
              in if q0 + k * q1 = 0 then Inl ZeroDivisionError
                 else
                   let bound1 = Fract (p0 + k * p1) (q0 + k * q1);
                       bound2 = Fract p1 q1
                   in if \<bar>bound2 - self\<bar> \<le> \<bar>bound1 - self\<bar> then Inr bound2
                      else Inr bound1)"

subsection \<open>One pass of the loop body\<close>

text \<open>
  Step 3: \<open>r = (Fraction(phase_final).limit_denominator(15)).denominator\<close>. The bound
  is the literal 15, not the variable \<open>N\<close>.
\<close>

definition period_guess :: "rat \<Rightarrow> error + int" where
  "period_guess phase =
     (case limit_denominator phase 15 of
        Inl e \<Rightarrow> Inl e
      | Inr f \<Rightarrow> Inr (snd (quotient_of f)))"

text \<open>
  Step 4: \<open>guesses = [gcd(a**(r//2)-1, N), gcd(a**(r//2)+1, N)]\<close>, with the floor
  division \<open>r//2\<close> and no test on the parity of \<open>r\<close>.
\<close>

definition factor_guesses :: "int \<Rightarrow> int \<Rightarrow> int \<Rightarrow> int list" where
  "factor_guesses N a r =
     [gcd (a ^ nat (r div 2) - 1) N, gcd (a ^ nat (r div 2) + 1) N]"

text \<open>
  Step 5, the \<open>for guess in guesses\<close> loop: the first guess with
  \<open>guess not in [1, N] and (N % guess) == 0\<close> flips \<open>gcheck\<close> and leaves the loop. The
  result is the value of \<open>gcheck\<close> after the loop; \<open>and\<close> evaluates \<open>N % guess\<close> only
  when the first test holds.
\<close>

fun check_guesses :: "int \<Rightarrow> bool \<Rightarrow> int list \<Rightarrow> error + bool" where
  "check_guesses N gcheck [] = Inr gcheck"
| "check_guesses N gcheck (guess # rest) =
     (if guess \<noteq> 1 \<and> guess \<noteq> N then
        (if guess = 0 then Inl ZeroDivisionError
         else if N mod guess = 0 then Inr (\<not> gcheck)
         else check_guesses N gcheck rest)
      else check_guesses N gcheck rest)"

subsection \<open>The \<open>while gcheck\<close> loop\<close>

text \<open>
  The variables the loop changes, and \<open>calls\<close>, the number of executions of the
  circuit made so far (each pass makes one, with \<open>shots = 1\<close>). \<open>guesses\<close> is unbound in
  Python until the first pass has assigned it; the loop is entered with
  \<open>gcheck = True\<close>, so the function never returns it unassigned.
\<close>

record loop_state =
  gcheck :: bool
  guesses :: "int list"
  calls :: nat

definition loop_body :: "int \<Rightarrow> int \<Rightarrow> bool list \<Rightarrow> loop_state \<Rightarrow> error + loop_state" where
  "loop_body N a init_phase st =
     (case phase_final init_phase of
        Inl e \<Rightarrow> Inl e
      | Inr phase \<Rightarrow>
          (case period_guess phase of
             Inl e \<Rightarrow> Inl e
           | Inr r \<Rightarrow>
               (let gs = factor_guesses N a r
                in case check_guesses N (gcheck st) gs of
                     Inl e \<Rightarrow> Inl e
                   | Inr g \<Rightarrow> Inr \<lparr>gcheck = g, guesses = gs, calls = Suc (calls st)\<rparr>)))"

text \<open>
  The loop has no bound on the number of passes: it is a partial function, and not
  returning is the value \<open>None\<close>. \<open>run i\<close> is the bit string measured by the execution
  number \<open>i\<close> of the circuit.
\<close>

partial_function (option) while_gcheck ::
  "int \<Rightarrow> int \<Rightarrow> (nat \<Rightarrow> bool list) \<Rightarrow> loop_state \<Rightarrow> (error + loop_state) option" where
  "while_gcheck N a run st =
     (if gcheck st then
        (case loop_body N a (run (calls st)) st of
           Inl e \<Rightarrow> Some (Inl e)
         | Inr st' \<Rightarrow> while_gcheck N a run st')
      else Some (Inr st))"

text \<open>
  \<open>shor_qpe(k)\<close>: the argument is overwritten by \<open>k = 12\<close> before it is read. The circuit
  is built from \<open>k\<close> and \<open>m\<close>, so the executions are \<open>execute k m\<close>. The function
  returns \<open>guesses\<close>.
\<close>

definition shor_qpe :: "int \<Rightarrow> (int \<Rightarrow> int \<Rightarrow> nat \<Rightarrow> bool list) \<Rightarrow> (error + int list) option" where
  "shor_qpe k execute =
     (let N = 15;
          k = 12;
          a = 7;
          m = k - 4
      in map_option (map_sum id guesses)
           (while_gcheck N a (execute k m) \<lparr>gcheck = True, guesses = [], calls = 0\<rparr>))"

section \<open>Notions of the specification\<close>

text \<open>
  The contract the specification gives for step 3: \<open>p/q\<close> is a fraction with
  \<open>1 \<le> q \<le> N\<close> that minimises the distance to the phase, and among the fractions at
  that distance it has the smallest denominator.
\<close>

definition best_approximation :: "int \<Rightarrow> rat \<Rightarrow> int \<Rightarrow> int \<Rightarrow> bool" where
  "best_approximation N phase p q \<longleftrightarrow>
     1 \<le> q \<and> q \<le> N \<and>
     (\<forall>p' q'. 1 \<le> q' \<and> q' \<le> N \<longrightarrow>
        \<bar>phase - of_int p / of_int q\<bar> \<le> \<bar>phase - of_int p' / of_int q'\<bar>) \<and>
     (\<forall>p' q'. 1 \<le> q' \<and> q' < q \<longrightarrow>
        \<bar>phase - of_int p / of_int q\<bar> < \<bar>phase - of_int p' / of_int q'\<bar>)"

text \<open>
  The order of \<open>a\<close> modulo \<open>N\<close>: the smallest positive \<open>r\<close> with
  \<open>a^r mod N = 1\<close>.
\<close>

definition is_order :: "int \<Rightarrow> int \<Rightarrow> int \<Rightarrow> bool" where
  "is_order N a r \<longleftrightarrow>
     0 < r \<and> a ^ nat r mod N = 1 \<and> (\<forall>j\<in>{1..<r}. a ^ nat j mod N \<noteq> 1)"

text \<open>
  A synthetic simulator that measures the same bit string at every execution, whatever
  the size of the circuit.
\<close>

definition synthetic_oracle :: "bool list \<Rightarrow> int \<Rightarrow> int \<Rightarrow> nat \<Rightarrow> bool list" where
  "synthetic_oracle sample k m i = sample"

section \<open>Notions of the proofs\<close>

text \<open>
  A pass over a measured bit string ends the \<open>while\<close> loop when it raises or when it
  leaves \<open>gcheck\<close> false.
\<close>

definition ends_loop :: "int \<Rightarrow> int \<Rightarrow> bool list \<Rightarrow> bool" where
  "ends_loop N a init_phase =
     (case loop_body N a init_phase \<lparr>gcheck = True, guesses = [], calls = 0\<rparr> of
        Inl e \<Rightarrow> True
      | Inr st \<Rightarrow> \<not> gcheck st)"

text \<open>
  The invariant of the loop of \<open>limit_denominator\<close> on the fraction \<open>num/den\<close>, from
  the second pass on: \<open>p0/q0\<close> and \<open>p1/q1\<close> are consecutive convergents and \<open>n/d\<close> is
  the rest of the continued fraction.
\<close>

definition ld_inv :: "int \<Rightarrow> int \<Rightarrow> int \<Rightarrow> int \<times> int \<times> int \<times> int \<times> int \<times> int \<Rightarrow> bool" where
  "ld_inv M num den s =
     (case s of (p0, q0, p1, q1, n, d) \<Rightarrow>
        num = p1 * n + p0 * d \<and> den = q1 * n + q0 * d \<and> \<bar>p1 * q0 - p0 * q1\<bar> = 1 \<and>
        0 \<le> q0 \<and> q0 \<le> q1 \<and> 1 \<le> q1 \<and> q1 \<le> M \<and> 0 < d \<and> d < n)"

section \<open>The phase of a short string is exact\<close>

lemma bit_length_bounds:
  "0 < v \<Longrightarrow> 1 \<le> bit_length v \<and> 2 ^ nat (bit_length v - 1) \<le> v \<and> v < 2 ^ nat (bit_length v)"
proof (induction v rule: bit_length.induct)
  case (1 v)
  show ?case
  proof (cases "v = 1")
    case True
    have "bit_length (1::int) = 1"
      by (subst bit_length.simps) (simp add: bit_length.simps[of 0])
    then show ?thesis using True by simp
  next
    case False
    with "1.prems" have v2: "2 \<le> v" by simp
    then have half: "0 < v div 2" by simp
    have nv: "\<not> v \<le> 0" using v2 by simp
    from "1.IH"[OF nv half] have
      b: "1 \<le> bit_length (v div 2)"
      and lo: "2 ^ nat (bit_length (v div 2) - 1) \<le> v div 2"
      and hi: "v div 2 < 2 ^ nat (bit_length (v div 2))" by simp_all
    have bl: "bit_length v = 1 + bit_length (v div 2)"
      using nv by (subst bit_length.simps) simp
    have n1: "nat (bit_length v - 1) = Suc (nat (bit_length (v div 2) - 1))"
      using b bl by simp
    have n2: "nat (bit_length v) = Suc (nat (bit_length (v div 2)))"
      using b bl by simp
    have "2 * (v div 2) \<le> v" by simp
    then have "2 ^ nat (bit_length v - 1) \<le> v" unfolding n1 using lo by simp
    moreover have "v < 2 * (v div 2) + 2" by simp
    then have "v < 2 ^ nat (bit_length v)" unfolding n2 using hi by simp
    ultimately show ?thesis using bl b by simp
  qed
qed

lemma round_half_even_int: "round_half_even (of_int n) = n"
  by (simp add: round_half_even_def)

text \<open>
  A string of at most 53 bits: the quotient is a binary64 number, and the division is exact.
\<close>
lemma true_divide_pow2_exact:
  assumes v: "0 \<le> v" "v < 2 ^ len" and len: "len \<le> 53"
  shows "true_divide_pow2 v len = of_int v / 2 ^ len"
proof (cases "v = 0")
  case True
  then show ?thesis by (simp add: true_divide_pow2_def)
next
  case False
  then have vpos: "0 < v" using v by simp
  define b where "b = bit_length v"
  from bit_length_bounds[OF vpos] have b1: "1 \<le> b" and lo: "2 ^ nat (b - 1) \<le> v"
    by (simp_all add: b_def)
  have "(2::int) ^ nat (b - 1) < 2 ^ len" using lo v by linarith
  then have "nat (b - 1) < len" by (simp only: power_strict_increasing_iff) 
  then have blen: "b \<le> int len" using b1 by linarith
  have u: "max (b - 1 - int len - 52) (- 1074) = b - 53 - int len"
    using b1 len by simp
  have s1: "scale2 (of_int v) (- int len - (b - 53 - int len)) = of_int (v * 2 ^ nat (53 - b))"
    using blen len by (simp add: scale2_def)
  have neg: "\<not> 0 \<le> b - 53 - int len" using blen len b1 by simp
  have ex: "nat (- (b - 53 - int len)) = nat (53 - b) + len" using blen len by simp
  have "true_divide_pow2 v len =
      scale2 (of_int (round_half_even (scale2 (of_int v) (- int len - (b - 53 - int len)))))
        (b - 53 - int len)"
    using False by (simp only: true_divide_pow2_def Let_def b_def[symmetric] u if_False)
  also have "\<dots> = scale2 (of_int (v * 2 ^ nat (53 - b))) (b - 53 - int len)"
    by (simp only: s1 round_half_even_int)
  also have "\<dots> = of_int (v * 2 ^ nat (53 - b)) / 2 ^ (nat (53 - b) + len)"
    using neg by (simp only: scale2_def ex if_False)
  also have "\<dots> = of_int v / 2 ^ len" by (simp add: power_add)
  finally show ?thesis .
qed



lemma int_base2_bounds:
  fixes acc :: int
  shows "acc * 2 ^ length bs \<le> foldl (\<lambda>v b. 2 * v + (if b then 1 else 0)) acc bs \<and>
         foldl (\<lambda>v b. 2 * v + (if b then 1 else 0)) acc bs < (acc + 1) * 2 ^ length bs"
proof (induction bs arbitrary: acc)
  case Nil
  then show ?case by simp
next
  case (Cons b bs)
  have lo: "acc * 2 ^ length (b # bs) \<le> (2 * acc + (if b then 1 else 0)) * 2 ^ length bs"
    by (simp add: algebra_simps)
  have hi: "(2 * acc + (if b then 1 else 0) + 1) * 2 ^ length bs \<le> (acc + 1) * 2 ^ length (b # bs)"
    by (simp add: algebra_simps)
  from Cons.IH[of "2 * acc + (if b then 1 else 0)"] lo hi show ?case
    by (simp del: power_Suc)
qed

text \<open>More than \<open>n\<close> decimal digits: a value of at least \<open>10^n\<close>.\<close>
lemma decimal_digits_pos: "1 \<le> decimal_digits v"
proof (induction v rule: decimal_digits.induct)
  case (1 v)
  show ?case
  proof (cases "v < 10")
    case True
    then show ?thesis by (subst decimal_digits.simps) simp
  next
    case False
    from "1.IH"[OF False] show ?thesis using False by (subst decimal_digits.simps) simp
  qed
qed

lemma decimal_digits_gt_iff:
  "0 < n \<Longrightarrow> int n < decimal_digits v \<longleftrightarrow> 10 ^ n \<le> v"
proof (induction n arbitrary: v)
  case 0
  then show ?case by simp
next
  case (Suc n)
  show ?case
  proof (cases "v < 10")
    case True
    have "decimal_digits v = 1" using True by (subst decimal_digits.simps) simp
    moreover have "(10::int) ^ 1 \<le> 10 ^ Suc n" by (intro power_increasing) simp_all
    then have "(10::int) \<le> 10 ^ Suc n" by (simp only: power_one_right)
    then have "\<not> 10 ^ Suc n \<le> v" using True by linarith
    ultimately show ?thesis by simp
  next
    case False
    have dd: "decimal_digits v = 1 + decimal_digits (v div 10)"
      using False by (subst decimal_digits.simps) simp
    show ?thesis
    proof (cases "n = 0")
      case True
      then show ?thesis using False dd decimal_digits_pos[of "v div 10"] by simp
    next
      case nz: False
      then have "int n < decimal_digits (v div 10) \<longleftrightarrow> 10 ^ n \<le> v div 10"
        by (intro Suc.IH) simp
      moreover have "(10::int) ^ n \<le> v div 10 \<longleftrightarrow> 10 * 10 ^ n \<le> v" by presburger
      ultimately show ?thesis using dd by simp
    qed
  qed
qed

lemma decimal_digits_short:
  assumes "v < 2 ^ len" and "len \<le> n" and "0 < n"
  shows "decimal_digits v \<le> int n"
proof -
  have "(2::int) ^ len \<le> 10 ^ len" by (intro power_mono) simp_all
  also have "\<dots> \<le> 10 ^ n" using assms(2) by (intro power_increasing) simp_all
  finally have "\<not> 10 ^ n \<le> v" using assms(1) by simp
  then show ?thesis using decimal_digits_gt_iff[OF assms(3), of v] by simp
qed

text \<open>
  For a string of at most 53 bits, as the 8 bits of the circuit, the phase is the binary
  fraction the string writes, a number of the interval from 0 to 1, 1 excluded.
\<close>
lemma phase_final_short:
  assumes "init_phase \<noteq> []" and "length init_phase \<le> 53"
  shows "\<exists>v. int_base2 init_phase = Inr v \<and> 0 \<le> v \<and> v < 2 ^ length init_phase \<and>
           phase_final init_phase = Inr (of_int v / 2 ^ length init_phase) \<and>
           (0::rat) \<le> of_int v / 2 ^ length init_phase \<and>
           (of_int v / 2 ^ length init_phase :: rat) < 1"
proof -
  define v where "v = foldl (\<lambda>v b. 2 * v + (if b then 1 else 0)) (0::int) init_phase"
  have v: "0 \<le> v" "v < 2 ^ length init_phase"
    using int_base2_bounds[of 0 init_phase] by (simp_all add: v_def)
  have i: "int_base2 init_phase = Inr v" using assms(1) by (simp add: int_base2_def v_def)
  have "decimal_digits v \<le> int 4300"
    using v(2) assms(2) by (intro decimal_digits_short[where len="length init_phase"]) simp_all
  then have d: "\<not> 4300 < decimal_digits v" by simp
  have p: "phase_final init_phase = Inr (of_int v / 2 ^ length init_phase)"
    using true_divide_pow2_exact[OF v assms(2)] i d by (simp add: phase_final_def)
  have "(of_int v :: rat) < of_int (2 ^ length init_phase)" using v(2) by (simp only: of_int_less_iff)
  then have "(of_int v / 2 ^ length init_phase :: rat) < 1" by simp
  moreover have "(0::rat) \<le> of_int v / 2 ^ length init_phase" using v(1) by simp
  ultimately show ?thesis using v i p by blast
qed

text \<open>
  A long string: the string \<open>1\<close> followed by 14334 characters \<open>0\<close> has the value
  \<open>2^14334\<close>, of more than 4300 decimal digits, and the pass raises at \<open>print\<close>.
\<close>
lemma foldl_zeros:
  fixes acc :: int
  shows "foldl (\<lambda>v b. 2 * v + (if b then 1 else 0)) acc (replicate n False) = acc * 2 ^ n"
  by (induction n arbitrary: acc) simp_all

lemma int_base2_one_zeros: "int_base2 (True # replicate n False) = Inr (2 ^ n)"
  by (simp add: int_base2_def foldl_zeros)

lemma pow10_le_pow2: "(10::int) ^ (3 * n + 1) \<le> 2 ^ (10 * n + 4)"
proof -
  have "(10::int) ^ (3 * n) = 1000 ^ n" by (simp add: power_mult)
  also have "\<dots> \<le> 1024 ^ n" by (intro power_mono) simp_all
  also have "\<dots> = 2 ^ (10 * n)" by (simp add: power_mult)
  finally have "(10::int) ^ (3 * n) * 10 \<le> 2 ^ (10 * n) * 16" by (intro mult_mono) simp_all
  then show ?thesis by (simp add: power_add)
qed

lemma long_key_raises: "phase_final (True # replicate 14334 False) = Inl ValueError"
proof -
  have e1: "(3 * 1433 + 1 :: nat) = 4300" by simp
  have e2: "(10 * 1433 + 4 :: nat) = 14334" by simp
  have "(10::int) ^ 4300 \<le> 2 ^ 14334" using pow10_le_pow2[of 1433] unfolding e1 e2 .
  moreover have "(0::nat) < 4300" by simp
  ultimately have "int 4300 < decimal_digits (2 ^ 14334)"
    by (simp only: decimal_digits_gt_iff)
  then have "4300 < decimal_digits (2 ^ 14334)" by (simp only: of_nat_numeral)
  then show ?thesis
    by (simp only: phase_final_def int_base2_one_zeros sum.case if_True)
qed

section \<open>\<open>limit_denominator\<close> returns the best approximation\<close>

lemma ld_step_pos:
  fixes num den M p0 q0 p1 q1 n d :: int
  assumes cop: "coprime num den" and big: "M < den"
    and num: "num = p1 * n + p0 * d" and den: "den = q1 * n + q0 * d"
    and d: "0 < d" and q2: "q0 + (n div d) * q1 \<le> M"
  shows "0 < n mod d"
proof (rule ccontr)
  assume "\<not> 0 < n mod d"
  moreover have "0 \<le> n mod d" using d by simp
  ultimately have z: "n mod d = 0" by simp
  then have dn: "d dvd n" by (simp add: dvd_eq_mod_eq_0)
  have dnum: "d dvd num" using dn num by simp
  have dden: "d dvd den" using dn den by simp
  have "is_unit d" by (rule coprime_common_divisor[OF cop dnum dden])
  then have d1: "d = 1" using d by simp
  have "den = q0 + (n div d) * q1" using den d1 by (simp add: algebra_simps)
  then show False using q2 big by simp
qed

lemma ld_loop_inv:
  "ld_inv M num den (p0, q0, p1, q1, n, d) \<Longrightarrow> coprime num den \<Longrightarrow> M < den \<Longrightarrow>
    \<exists>p0' q0' p1' q1' n' d'.
      ld_loop M p0 q0 p1 q1 n d = Inr (p0', q0', p1', q1', n', d') \<and>
      ld_inv M num den (p0', q0', p1', q1', n', d') \<and> M < q0' + (n' div d') * q1'"
proof (induction M p0 q0 p1 q1 n d rule: ld_loop.induct)
  case (1 M p0 q0 p1 q1 n d)
  note cop = "1.prems"(2) and big = "1.prems"(3)
  from "1.prems"(1) have num: "num = p1 * n + p0 * d" and den: "den = q1 * n + q0 * d"
    and det: "\<bar>p1 * q0 - p0 * q1\<bar> = 1" and q0: "0 \<le> q0" "q0 \<le> q1" and q1: "1 \<le> q1" "q1 \<le> M"
    and d: "0 < d" "d < n"
    by (simp_all add: ld_inv_def)
  define a where "a = n div d"
  show ?case
  proof (cases "M < q0 + a * q1")
    case True
    then have "ld_loop M p0 q0 p1 q1 n d = Inr (p0, q0, p1, q1, n, d)"
      using d by (subst ld_loop.simps) (simp add: a_def Let_def)
    with True "1.prems" show ?thesis by (simp add: a_def)
  next
    case False
    then have step: "ld_loop M p0 q0 p1 q1 n d = ld_loop M p1 q1 (p0 + a * p1) (q0 + a * q1) d (n - a * d)"
      using d by (subst ld_loop.simps) (simp add: a_def Let_def)
    have nmod: "n - a * d = n mod d" by (simp add: a_def minus_div_mult_eq_mod)
    have a1: "1 \<le> a" using d pos_imp_zdiv_pos_iff[of d n] by (simp add: a_def)
    have "q0 + (n div d) * q1 \<le> M" using False by (simp add: a_def)
    then have pos: "0 < n mod d"
      by (rule ld_step_pos[OF cop big num den d(1)])
    have lt: "n mod d < d" using d by simp
    have det': "\<bar>(p0 + a * p1) * q1 - p1 * (q0 + a * q1)\<bar> = 1"
    proof -
      have "(p0 + a * p1) * q1 - p1 * (q0 + a * q1) = - (p1 * q0 - p0 * q1)"
        by (simp add: algebra_simps)
      then show ?thesis using det by simp
    qed
    have num': "num = (p0 + a * p1) * d + p1 * (n - a * d)" using num by (simp add: algebra_simps)
    have den': "den = (q0 + a * q1) * d + q1 * (n - a * d)" using den by (simp add: algebra_simps)
    have "q1 \<le> q0 + a * q1"
    proof -
      have "1 * q1 \<le> a * q1" using a1 q1 by (intro mult_right_mono) simp_all
      then show ?thesis using q0 by simp
    qed
    then have inv': "ld_inv M num den (p1, q1, p0 + a * p1, q0 + a * q1, d, n - a * d)"
      using num' den' det' q1 False pos lt nmod by (simp add: ld_inv_def)
    have "\<not> d = 0" using d by simp
    from "1.IH"[OF this a_def refl _ inv' cop big] False
    show ?thesis unfolding step by simp
  qed
qed

lemma frac_less_iff:
  fixes a b c d :: int
  assumes "0 < b" "0 < d"
  shows "(of_int a / of_int b < (of_int c / of_int d :: rat)) = (a * d < c * b)"
proof -
  have "(of_int a / of_int b < (of_int c / of_int d :: rat)) = ((of_int (a * d) :: rat) < of_int (c * b))"
    using assms by (simp add: field_simps)
  then show ?thesis by (simp only: of_int_less_iff)
qed

lemma frac_le_iff:
  fixes a b c d :: int
  assumes "0 < b" "0 < d"
  shows "(of_int a / of_int b \<le> (of_int c / of_int d :: rat)) = (a * d \<le> c * b)"
proof -
  have "(of_int a / of_int b \<le> (of_int c / of_int d :: rat)) = ((of_int (a * d) :: rat) \<le> of_int (c * b))"
    using assms by (simp add: field_simps)
  then show ?thesis by (simp only: of_int_le_iff)
qed

lemma frac_eq_iff:
  fixes a b c d :: int
  assumes "0 < b" "0 < d"
  shows "(of_int a / of_int b = (of_int c / of_int d :: rat)) = (a * d = c * b)"
proof -
  have "(of_int a / of_int b = (of_int c / of_int d :: rat)) = ((of_int (a * d) :: rat) = of_int (c * b))"
    using assms by (simp add: field_simps)
  then show ?thesis by (simp only: of_int_eq_iff)
qed

text \<open>Between two neighbours there is no fraction with a smaller denominator.\<close>
lemma neighbours_gap:
  fixes A B C D u v :: int
  assumes B: "0 < B" and D: "0 < D" and v: "0 < v"
    and det: "C * B - A * D = 1"
    and lo: "(of_int A / of_int B :: rat) < of_int u / of_int v"
    and hi: "(of_int u / of_int v :: rat) < of_int C / of_int D"
  shows "B + D \<le> v"
proof -
  have 1: "1 \<le> u * B - A * v" using lo B v by (simp add: frac_less_iff)
  have 2: "1 \<le> C * v - u * D" using hi D v by (simp add: frac_less_iff)
  have "v = v * (C * B - A * D)" using det by simp
  also have "\<dots> = B * (C * v - u * D) + D * (u * B - A * v)" by (simp add: algebra_simps)
  finally have v_eq: "v = B * (C * v - u * D) + D * (u * B - A * v)" .
  have "B * 1 \<le> B * (C * v - u * D)" using B 2 by (intro mult_left_mono) simp_all
  moreover have "D * 1 \<le> D * (u * B - A * v)" using D 1 by (intro mult_left_mono) simp_all
  ultimately show ?thesis using v_eq by linarith
qed

lemma lowest_terms_le:
  fixes P Q u v :: int
  assumes cop: "coprime P Q" and Q: "0 < Q" and v: "0 < v"
    and eq: "(of_int u / of_int v :: rat) = of_int P / of_int Q"
  shows "Q \<le> v"
proof -
  have "u * Q = P * v" using eq Q v by (simp add: frac_eq_iff)
  then have "Q dvd P * v" by (metis dvd_triv_right)
  then have "Q dvd v" using cop by (simp add: coprime_dvd_mult_right_iff coprime_commute)
  then show ?thesis using v by (rule zdvd_imp_le)
qed

lemma quotient_of_coprime_Fract:
  "coprime P Q \<Longrightarrow> 0 < Q \<Longrightarrow> quotient_of (Fract P Q) = (P, Q)"
  by (simp add: quotient_of_Fract Rat.normalize_def)

lemma rat_as_quotient: "x = of_int (fst (quotient_of x)) / of_int (snd (quotient_of x))"
  by (metis Fract_of_int_quotient Fract_quotient_of)

lemma frac_diff:
  fixes a b c d :: int
  assumes "b \<noteq> 0" "d \<noteq> 0"
  shows "of_int a / of_int b - of_int c / of_int d = (of_int (a * d - c * b) / of_int (b * d) :: rat)"
  using assms by (simp add: field_simps)

lemma closest_of_two:
  fixes x b1 b2 w :: rat
  assumes "b1 < x \<and> x < b2 \<or> b2 < x \<and> x < b1"
    and "\<not> (b1 < w \<and> w < b2)" and "\<not> (b2 < w \<and> w < b1)"
  shows "min \<bar>b1 - x\<bar> \<bar>b2 - x\<bar> \<le> \<bar>w - x\<bar>"
    and "\<bar>w - x\<bar> \<le> min \<bar>b1 - x\<bar> \<bar>b2 - x\<bar> \<Longrightarrow>
           (w = b1 \<and> \<bar>b1 - x\<bar> \<le> \<bar>b2 - x\<bar>) \<or> (w = b2 \<and> \<bar>b2 - x\<bar> \<le> \<bar>b1 - x\<bar>)"
  using assms by (auto simp: abs_if min_def not_less split: if_splits)

lemma det_coprime:
  fixes a b u v :: int
  assumes "\<bar>a * u - v * b\<bar> = 1"
  shows "coprime a b"
proof (rule coprimeI)
  fix c assume "c dvd a" "c dvd b"
  then have "c dvd a * u - v * b" by simp
  then have "c dvd \<bar>a * u - v * b\<bar>" by simp
  then show "is_unit c" using assms by simp
qed

lemma ld_exit_facts:
  fixes M num den p0 q0 p1 q1 n d :: int
  assumes inv: "ld_inv M num den (p0, q0, p1, q1, n, d)"
    and ex: "M < q0 + (n div d) * q1"
  defines "k \<equiv> (M - q0) div q1"
  shows "0 \<le> k" and "1 \<le> q0 + k * q1" and "q0 + k * q1 \<le> M" and "M < q0 + k * q1 + q1"
    and "0 < n - k * d"
    and "(n - k * d) * q1 \<le> d * (q0 + k * q1) \<Longrightarrow> q1 \<le> q0 + k * q1"
proof -
  from inv have q0: "0 \<le> q0" "q0 \<le> q1" and q1: "1 \<le> q1" "q1 \<le> M" and d: "0 < d" "d < n"
    by (simp_all add: ld_inv_def)
  have q1pos: "0 < q1" using q1 by simp
  show k0: "0 \<le> k"
    unfolding k_def using q0 q1 by (simp add: pos_imp_zdiv_nonneg_iff)
  have split: "M - q0 = k * q1 + (M - q0) mod q1"
    unfolding k_def by simp
  have m0: "0 \<le> (M - q0) mod q1" and m1: "(M - q0) mod q1 < q1"
    using q1pos by simp_all
  show QM: "q0 + k * q1 \<le> M" using split m0 by linarith
  show QM2: "M < q0 + k * q1 + q1" using split m1 by linarith
  have kq: "0 \<le> k * q1" using k0 q1pos by simp
  show Q1: "1 \<le> q0 + k * q1"
  proof (cases "q0 = 0")
    case True
    have "M < k * q1 + q1" using QM2 True by simp
    then have "0 < k * q1" using q1 by linarith
    then show ?thesis using True by simp
  next
    case False
    then show ?thesis using q0 kq by linarith
  qed
  have "k * q1 < (n div d) * q1" using QM ex by linarith
  then have ka: "k < n div d" using q1pos by (simp add: mult_less_cancel_right)
  have "n = (n div d) * d + n mod d" by simp
  moreover have "0 \<le> n mod d" using d by simp
  ultimately have "(n div d) * d \<le> n" by linarith
  moreover have "(k + 1) * d \<le> (n div d) * d" using ka d by (intro mult_right_mono) simp_all
  ultimately have kd: "k * d + d \<le> n" by (simp add: algebra_simps)
  then show rem: "0 < n - k * d" using d by linarith
  show "q1 \<le> q0 + k * q1" if tie: "(n - k * d) * q1 \<le> d * (q0 + k * q1)"
  proof (cases "k = 0")
    case True
    have "d * q0 \<le> d * q1" using q0 d by (intro mult_left_mono) simp_all
    moreover have "d * q1 < n * q1" using d q1pos by (simp add: mult_less_cancel_right)
    ultimately have False using tie True by simp
    then show ?thesis ..
  next
    case False
    then have "1 \<le> k" using k0 by simp
    then have "1 * q1 \<le> k * q1" using q1pos by (intro mult_right_mono) simp_all
    then show ?thesis using q0 by simp
  qed
qed

lemma abs_frac:
  fixes a b :: int
  assumes "0 < b"
  shows "\<bar>(of_int a / of_int b :: rat)\<bar> = of_int \<bar>a\<bar> / of_int b"
proof -
  have 1: "\<bar>(of_int a / of_int b :: rat)\<bar> = \<bar>of_int a\<bar> / \<bar>of_int b\<bar>" by (rule abs_divide)
  have 2: "\<bar>of_int b :: rat\<bar> = of_int b" using assms by simp
  have 3: "\<bar>of_int a :: rat\<bar> = of_int \<bar>a\<bar>" by simp
  show ?thesis unfolding 1 2 3 ..
qed

lemma ld_exit_best:
  fixes M num den p0 q0 p1 q1 n d :: int and x :: rat
  assumes inv: "ld_inv M num den (p0, q0, p1, q1, n, d)"
    and ex: "M < q0 + (n div d) * q1"
    and den_pos: "0 < den"
    and x: "x = of_int num / of_int den"
  defines "k \<equiv> (M - q0) div q1"
  defines "Q \<equiv> q0 + k * q1"
  defines "P \<equiv> p0 + k * p1"
  defines "b1 \<equiv> (of_int P / of_int Q :: rat)"
  defines "b2 \<equiv> (of_int p1 / of_int q1 :: rat)"
  defines "y \<equiv> (if \<bar>b2 - x\<bar> \<le> \<bar>b1 - x\<bar> then b2 else b1)"
  shows "best_approximation M x (fst (quotient_of y)) (snd (quotient_of y))"
proof -
  from inv have num: "num = p1 * n + p0 * d" and den: "den = q1 * n + q0 * d"
    and det: "\<bar>p1 * q0 - p0 * q1\<bar> = 1" and q1: "1 \<le> q1" "q1 \<le> M" and d: "0 < d"
    by (simp_all add: ld_inv_def)
  note facts = ld_exit_facts[OF inv ex, folded k_def, folded Q_def]
  have Qpos: "0 < Q" and QM: "Q \<le> M" and gap: "M < Q + q1" and rem: "0 < n - k * d"
    using facts by simp_all
  have q1pos: "0 < q1" using q1 by simp
  define s where "s = p1 * q0 - p0 * q1"
  have s: "s = 1 \<or> s = - 1" using det unfolding s_def by linarith
  have id1: "p1 * Q - P * q1 = s" by (simp add: P_def Q_def s_def algebra_simps)
  have id2: "p1 * den - num * q1 = s * d" by (simp add: num den s_def algebra_simps)
  have id3: "num * Q - P * den = s * (n - k * d)"
    by (simp add: num den P_def Q_def s_def algebra_simps)
  have cop2: "coprime p1 q1"
    using det det_coprime[of p1 q0 p0 q1] by simp
  have cop1: "coprime P Q"
  proof -
    have "\<bar>P * q1 - p1 * Q\<bar> = 1" using id1 s by linarith
    then show ?thesis using det_coprime[of P q1 p1 Q] by simp
  qed
  have qy2: "quotient_of b2 = (p1, q1)"
    unfolding b2_def using quotient_of_coprime_Fract[OF cop2 q1pos] by (simp add: Fract_of_int_quotient)
  have qy1: "quotient_of b1 = (P, Q)"
    unfolding b1_def using quotient_of_coprime_Fract[OF cop1 Qpos] by (simp add: Fract_of_int_quotient)
  text \<open>The distances of the two bounds.\<close>
  have e2: "\<bar>b2 - x\<bar> = of_int d / of_int (q1 * den)"
  proof -
    have "b2 - x = of_int (p1 * den - num * q1) / of_int (q1 * den)"
      unfolding b2_def x using q1pos den_pos by (intro frac_diff) simp_all
    then have "b2 - x = of_int (s * d) / of_int (q1 * den)"
      by (simp only: id2)
    moreover have "0 < q1 * den" using q1pos den_pos by simp
    ultimately have "\<bar>b2 - x\<bar> = of_int \<bar>s * d\<bar> / of_int (q1 * den)"
      by (simp only: abs_frac)
    moreover have "\<bar>s * d\<bar> = d" using s d by auto
    ultimately show ?thesis by (simp only:)
  qed
  have e1: "\<bar>b1 - x\<bar> = of_int (n - k * d) / of_int (Q * den)"
  proof -
    have "x - b1 = of_int (num * Q - P * den) / of_int (den * Q)"
      unfolding b1_def x using Qpos den_pos by (intro frac_diff) simp_all
    then have "x - b1 = of_int (s * (n - k * d)) / of_int (Q * den)"
      by (simp only: id3 mult.commute[of den Q])
    moreover have "0 < Q * den" using Qpos den_pos by simp
    ultimately have "\<bar>x - b1\<bar> = of_int \<bar>s * (n - k * d)\<bar> / of_int (Q * den)"
      by (simp only: abs_frac)
    moreover have "\<bar>s * (n - k * d)\<bar> = n - k * d" using s rem by auto
    moreover have "\<bar>b1 - x\<bar> = \<bar>x - b1\<bar>" by (rule abs_minus_commute)
    ultimately show ?thesis by (simp only:)
  qed
  text \<open>The phase lies strictly between the two bounds.\<close>
  have between: "b1 < x \<and> x < b2 \<or> b2 < x \<and> x < b1"
  proof -
    have lt1: "(b1 < x) = (P * den < num * Q)" and gt1: "(x < b1) = (num * Q < P * den)"
      and lt2: "(x < b2) = (num * q1 < p1 * den)" and gt2: "(b2 < x) = (p1 * den < num * q1)"
      unfolding b1_def b2_def x
      by (simp_all only: frac_less_iff[OF Qpos den_pos] frac_less_iff[OF den_pos Qpos]
            frac_less_iff[OF q1pos den_pos] frac_less_iff[OF den_pos q1pos])
    from s show ?thesis
    proof
      assume "s = 1"
      then have "p1 * den - num * q1 = d" "num * Q - P * den = n - k * d"
        using id2 id3 by simp_all
      then have "num * q1 < p1 * den" "P * den < num * Q" using d rem by linarith+
      then show ?thesis using lt1 lt2 by blast
    next
      assume "s = - 1"
      then have "p1 * den - num * q1 = - d" "num * Q - P * den = - (n - k * d)"
        using id2 id3 by simp_all
      then have "p1 * den < num * q1" "num * Q < P * den" using d rem by linarith+
      then show ?thesis using gt1 gt2 by blast
    qed
  qed
  text \<open>No fraction with a denominator up to \<open>M\<close> lies strictly between them.\<close>
  have outside: "\<not> (b1 < w \<and> w < b2) \<and> \<not> (b2 < w \<and> w < b1)"
    if v: "1 \<le> v" "v \<le> M" and w: "w = of_int u / of_int v" for u v :: int and w :: rat
  proof -
    have vpos: "0 < v" using v by simp
    have "\<not> (b1 < w \<and> w < b2)"
    proof
      assume a: "b1 < w \<and> w < b2"
      then have "b1 < b2" by simp
      then have "P * q1 < p1 * Q" unfolding b1_def b2_def using Qpos q1pos by (simp add: frac_less_iff)
      then have "p1 * Q - P * q1 = 1" using id1 s by linarith
      from neighbours_gap[OF Qpos q1pos vpos this, of u] a
      have "Q + q1 \<le> v" unfolding b1_def b2_def w by blast
      then show False using gap v by simp
    qed
    moreover have "\<not> (b2 < w \<and> w < b1)"
    proof
      assume a: "b2 < w \<and> w < b1"
      then have "b2 < b1" by simp
      then have "p1 * Q < P * q1" unfolding b1_def b2_def using Qpos q1pos by (simp add: frac_less_iff)
      then have "P * q1 - p1 * Q = 1" using id1 s by linarith
      from neighbours_gap[OF q1pos Qpos vpos this, of u] a
      have "q1 + Q \<le> v" unfolding b1_def b2_def w by blast
      then show False using gap v by simp
    qed
    ultimately show ?thesis ..
  qed
  have ymin: "\<bar>y - x\<bar> = min \<bar>b1 - x\<bar> \<bar>b2 - x\<bar>" by (simp add: y_def min_def)
  have yq: "snd (quotient_of y) = (if \<bar>b2 - x\<bar> \<le> \<bar>b1 - x\<bar> then q1 else Q)"
    by (simp add: y_def qy1 qy2)
  have yval: "of_int (fst (quotient_of y)) / of_int (snd (quotient_of y)) = y"
    by (rule rat_as_quotient[symmetric])
  have tie: "q1 \<le> Q" if "\<bar>b1 - x\<bar> \<le> \<bar>b2 - x\<bar>"
  proof -
    have pos1: "0 < Q * den" and pos2: "0 < q1 * den" using Qpos q1pos den_pos by simp_all
    from that have "of_int (n - k * d) / of_int (Q * den) \<le> (of_int d / of_int (q1 * den) :: rat)"
      by (simp only: e1 e2)
    then have "(n - k * d) * (q1 * den) \<le> d * (Q * den)"
      by (simp only: frac_le_iff[OF pos1 pos2])
    then have "((n - k * d) * q1) * den \<le> (d * Q) * den" by (simp add: mult.assoc)
    then have "(n - k * d) * q1 \<le> d * Q" using den_pos by (simp add: mult_le_cancel_right)
    then show ?thesis using facts(6) by simp
  qed
  show ?thesis
    unfolding best_approximation_def yval
  proof (intro conjI allI impI)
    show "1 \<le> snd (quotient_of y)" using quotient_of_denom_pos'[of y] by simp
    show "snd (quotient_of y) \<le> M" using yq q1 QM by simp
    fix p' q' :: int assume q': "1 \<le> q' \<and> q' \<le> M"
    define w :: rat where "w = of_int p' / of_int q'"
    have "\<not> (b1 < w \<and> w < b2) \<and> \<not> (b2 < w \<and> w < b1)"
      using q' by (intro outside[of q' w p']) (simp_all only: w_def)
    then have "min \<bar>b1 - x\<bar> \<bar>b2 - x\<bar> \<le> \<bar>w - x\<bar>"
      using closest_of_two(1)[OF between] by blast
    then have "\<bar>y - x\<bar> \<le> \<bar>w - x\<bar>"
      by (simp only: ymin)
    then show "\<bar>x - y\<bar> \<le> \<bar>x - of_int p' / of_int q'\<bar>"
      by (simp only: w_def abs_minus_commute[of x])
  next
    fix p' q' :: int assume q': "1 \<le> q' \<and> q' < snd (quotient_of y)"
    define w :: rat where "w = of_int p' / of_int q'"
    have yM: "snd (quotient_of y) \<le> M" using yq q1 QM by simp
    have q'M: "q' \<le> M" using q' yM by linarith
    have q'pos: "0 < q'" using q' by linarith
    have "\<not> (b1 < w \<and> w < b2) \<and> \<not> (b2 < w \<and> w < b1)"
      using q' q'M by (intro outside[of q' w p']) (simp_all only: w_def)
    then have out: "\<not> (b1 < w \<and> w < b2)" "\<not> (b2 < w \<and> w < b1)"
      by blast+
    have "\<bar>y - x\<bar> < \<bar>w - x\<bar>"
    proof (rule ccontr)
      assume "\<not> \<bar>y - x\<bar> < \<bar>w - x\<bar>"
      then have "\<bar>w - x\<bar> \<le> min \<bar>b1 - x\<bar> \<bar>b2 - x\<bar>"
        by (simp only: ymin not_less)
      from closest_of_two(2)[OF between out this]
      show False
      proof
        assume a: "w = b1 \<and> \<bar>b1 - x\<bar> \<le> \<bar>b2 - x\<bar>"
        then have "of_int p' / of_int q' = (of_int P / of_int Q :: rat)"
          by (simp only: w_def b1_def)
        then have "Q \<le> q'"
          by (rule lowest_terms_le[OF cop1 Qpos q'pos])
        moreover have "q1 \<le> Q" using tie a by blast
        moreover have "snd (quotient_of y) = q1 \<or> snd (quotient_of y) = Q"
          using yq by presburger
        ultimately show False using q' by linarith
      next
        assume a: "w = b2 \<and> \<bar>b2 - x\<bar> \<le> \<bar>b1 - x\<bar>"
        then have "of_int p' / of_int q' = (of_int p1 / of_int q1 :: rat)"
          by (simp only: w_def b2_def)
        then have "q1 \<le> q'"
          by (rule lowest_terms_le[OF cop2 q1pos q'pos])
        moreover have "snd (quotient_of y) = q1"
          using yq a by presburger
        ultimately show False using q' by linarith
      qed
    qed
    then show "\<bar>x - y\<bar> < \<bar>x - of_int p' / of_int q'\<bar>"
      by (simp only: w_def abs_minus_commute[of x])
  qed
qed

lemma best_approximation_exact:
  fixes M :: int and x :: rat
  assumes "snd (quotient_of x) \<le> M"
  shows "best_approximation M x (fst (quotient_of x)) (snd (quotient_of x))"
proof -
  obtain num den where q: "quotient_of x = (num, den)" by (cases "quotient_of x")
  have den_pos: "0 < den" using q by (rule quotient_of_denom_pos)
  have cop: "coprime num den" using q by (rule quotient_of_coprime)
  have x: "of_int num / of_int den = x" using rat_as_quotient[of x] q by simp
  have strict: "\<bar>x - x\<bar> < \<bar>x - of_int p' / of_int q'\<bar>" if q': "1 \<le> q' \<and> q' < den" for p' q' :: int
  proof -
    have "of_int p' / of_int q' \<noteq> x"
    proof
      assume "of_int p' / of_int q' = x"
      then have "of_int p' / of_int q' = (of_int num / of_int den :: rat)" by (simp only: x)
      then have "den \<le> q'" using q' by (intro lowest_terms_le[OF cop den_pos]) simp_all
      then show False using q' by simp
    qed
    then show ?thesis by simp
  qed
  show ?thesis
    unfolding best_approximation_def q fst_conv snd_conv x
    using den_pos assms q strict by auto
qed

lemma ld_first_pass:
  fixes M num den :: int
  assumes M: "1 \<le> M" and big: "M < den" and cop: "coprime num den"
  shows "ld_loop M 0 1 1 0 num den = ld_loop M 1 0 (num div den) 1 den (num - (num div den) * den)"
    and "ld_inv M num den (1, 0, num div den, 1, den, num - (num div den) * den)"
proof -
  have den_pos: "0 < den" using M big by simp
  show "ld_loop M 0 1 1 0 num den = ld_loop M 1 0 (num div den) 1 den (num - (num div den) * den)"
    using den_pos M by (subst ld_loop.simps) (simp add: Let_def)
  have nmod: "num - (num div den) * den = num mod den" by (simp add: minus_div_mult_eq_mod)
  have "num mod den \<noteq> 0"
  proof
    assume "num mod den = 0"
    then have "den dvd num" by (simp add: dvd_eq_mod_eq_0)
    then have "is_unit den" using cop by (intro coprime_common_divisor[of num den den]) simp_all
    then show False using M big by simp
  qed
  moreover have "0 \<le> num mod den" "num mod den < den" using den_pos by simp_all
  ultimately have md: "0 < num mod den" "num mod den < den" by simp_all
  have "num = num div den * den + num mod den" by simp
  then show "ld_inv M num den (1, 0, num div den, 1, den, num - (num div den) * den)"
    unfolding nmod using md M by (simp add: ld_inv_def)
qed

lemma limit_denominator_best:
  fixes M :: int and x :: rat
  assumes M: "1 \<le> M"
  shows "\<exists>y. limit_denominator x M = Inr y \<and>
            best_approximation M x (fst (quotient_of y)) (snd (quotient_of y))"
proof (cases "snd (quotient_of x) \<le> M")
  case True
  then have "limit_denominator x M = Inr x" using M by (simp add: limit_denominator_def)
  then show ?thesis using best_approximation_exact[OF True] by simp
next
  case False
  obtain num den where q: "quotient_of x = (num, den)" by (cases "quotient_of x")
  have den_pos: "0 < den" using q by (rule quotient_of_denom_pos)
  have cop: "coprime num den" using q by (rule quotient_of_coprime)
  have x: "x = of_int num / of_int den" using rat_as_quotient[of x] q by simp
  have big: "M < den" using False q by simp
  note first = ld_first_pass[OF M big cop]
  from ld_loop_inv[OF first(2) cop big]
  obtain p0 q0 p1 q1 n d where
    loop: "ld_loop M 1 0 (num div den) 1 den (num - (num div den) * den) = Inr (p0, q0, p1, q1, n, d)"
    and inv: "ld_inv M num den (p0, q0, p1, q1, n, d)" and ex: "M < q0 + (n div d) * q1"
    by blast
  define k where "k = (M - q0) div q1"
  have q1: "q1 \<noteq> 0" using inv by (simp add: ld_inv_def)
  have Q: "q0 + k * q1 \<noteq> 0" using ld_exit_facts(2)[OF inv ex] by (simp add: k_def)
  define y where "y = (if \<bar>of_int p1 / of_int q1 - x\<bar> \<le> \<bar>of_int (p0 + k * p1) / of_int (q0 + k * q1) - x\<bar>
     then of_int p1 / of_int q1 else (of_int (p0 + k * p1) / of_int (q0 + k * q1) :: rat))"
  have "limit_denominator x M = Inr y"
    using M False q1 Q
    by (simp add: limit_denominator_def q first(1) loop Let_def k_def[symmetric] y_def
        Fract_of_int_quotient)
  moreover have "best_approximation M x (fst (quotient_of y)) (snd (quotient_of y))"
    unfolding y_def k_def by (rule ld_exit_best[OF inv ex den_pos x])
  ultimately show ?thesis by blast
qed

section \<open>The passes of the loop\<close>

lemma period_guess_total:
  "\<exists>r p. period_guess phase = Inr r \<and> best_approximation 15 phase p r"
proof -
  obtain y where "limit_denominator phase 15 = Inr y"
    and "best_approximation 15 phase (fst (quotient_of y)) (snd (quotient_of y))"
    using limit_denominator_best[of 15 phase] by auto
  then show ?thesis by (auto simp: period_guess_def)
qed

lemma check_guesses_divisors:
  "\<forall>g\<in>set gs. g dvd N \<Longrightarrow>
     check_guesses N gc gs = Inr (if \<exists>g\<in>set gs. g \<noteq> 1 \<and> g \<noteq> N then \<not> gc else gc)"
proof (induction gs)
  case Nil
  then show ?case by simp
next
  case (Cons g gs)
  then have dvd: "g dvd N" and rest: "\<forall>g\<in>set gs. g dvd N" by simp_all
  show ?case
  proof (cases "g \<noteq> 1 \<and> g \<noteq> N")
    case True
    then have "g \<noteq> 0" using dvd by auto
    moreover have "N mod g = 0" using dvd by simp
    ultimately show ?thesis using True by auto
  next
    case False
    then show ?thesis using Cons.IH[OF rest] by auto
  qed
qed

lemma factor_guesses_dvd: "\<forall>g\<in>set (factor_guesses N a r). g dvd N"
  by (simp add: factor_guesses_def)

lemma check_factor_guesses:
  "check_guesses N gc (factor_guesses N a r) =
     Inr (if \<exists>g\<in>set (factor_guesses N a r). g \<noteq> 1 \<and> g \<noteq> N then \<not> gc else gc)"
  by (rule check_guesses_divisors[OF factor_guesses_dvd])

text \<open>
  No phase: the string is empty, or its value has more than 4300 decimal digits.
\<close>
lemma phase_final_raises:
  "phase_final s = Inl e \<longleftrightarrow>
     e = ValueError \<and> (s = [] \<or> (\<exists>v. int_base2 s = Inr v \<and> 4300 < decimal_digits v))"
  by (cases "s = []") (auto simp: phase_final_def int_base2_def)

lemma loop_body_raises: "phase_final s = Inl e \<Longrightarrow> loop_body N a s st = Inl e"
  by (simp add: loop_body_def)

lemma loop_body_phase:
  assumes ph: "phase_final s = Inr phase"
  shows "\<exists>r p. period_guess phase = Inr r \<and> best_approximation 15 phase p r \<and>
           loop_body N a s st =
             Inr \<lparr>gcheck = (if \<exists>g\<in>set (factor_guesses N a r). g \<noteq> 1 \<and> g \<noteq> N
                               then \<not> gcheck st else gcheck st),
                  guesses = factor_guesses N a r, calls = Suc (calls st)\<rparr>"
proof -
  obtain r p where r: "period_guess phase = Inr r" and b: "best_approximation 15 phase p r"
    using period_guess_total by blast
  show ?thesis
    using ph r b by (auto simp: loop_body_def check_factor_guesses Let_def)
qed

text \<open>
  What ends the loop: a pass that raises, on an empty string or on a value of more than
  4300 decimal digits, or a pass with a guess that is neither 1 nor \<open>N\<close>.
\<close>
lemma ends_loop_meaning:
  "ends_loop N a s \<longleftrightarrow>
     s = [] \<or> (\<exists>v. int_base2 s = Inr v \<and> 4300 < decimal_digits v) \<or>
     (\<exists>phase r. phase_final s = Inr phase \<and> period_guess phase = Inr r \<and>
        (\<exists>g\<in>set (factor_guesses N a r). g \<noteq> 1 \<and> g \<noteq> N))"
proof (cases "phase_final s")
  case (Inl e)
  then have "ends_loop N a s" by (simp add: ends_loop_def loop_body_raises)
  moreover have "s = [] \<or> (\<exists>v. int_base2 s = Inr v \<and> 4300 < decimal_digits v)"
    using Inl by (simp only: phase_final_raises)
  ultimately show ?thesis by blast
next
  case (Inr phase)
  let ?c = "\<lparr>gcheck = True, guesses = [], calls = 0\<rparr>"
  from loop_body_phase[OF Inr, of N a ?c] obtain r where r: "period_guess phase = Inr r"
    and b: "loop_body N a s ?c =
       Inr \<lparr>gcheck = (if \<exists>g\<in>set (factor_guesses N a r). g \<noteq> 1 \<and> g \<noteq> N
                        then \<not> gcheck ?c else gcheck ?c),
            guesses = factor_guesses N a r, calls = Suc (calls ?c)\<rparr>"
    by blast
  have e: "ends_loop N a s \<longleftrightarrow> (\<exists>g\<in>set (factor_guesses N a r). g \<noteq> 1 \<and> g \<noteq> N)"
    unfolding ends_loop_def b by simp
  have ne: "s \<noteq> []" "\<not> (\<exists>v. int_base2 s = Inr v \<and> 4300 < decimal_digits v)"
    using Inr phase_final_raises[of s ValueError] by simp_all
  show ?thesis unfolding e using ne Inr r by auto
qed

lemma loop_body_cong:
  assumes g: "gcheck st = gcheck st'" and c: "calls st = calls st'"
  shows "loop_body N a s st = loop_body N a s st'"
  unfolding loop_body_def g c ..

lemma while_gcheck_done: "\<not> gcheck st \<Longrightarrow> while_gcheck N a run st = Some (Inr st)"
  by (subst while_gcheck.simps) simp

lemma while_gcheck_raise:
  "gcheck st \<Longrightarrow> loop_body N a (run (calls st)) st = Inl e \<Longrightarrow> while_gcheck N a run st = Some (Inl e)"
  by (subst while_gcheck.simps) simp

lemma while_gcheck_pass:
  "gcheck st \<Longrightarrow> loop_body N a (run (calls st)) st = Inr st' \<Longrightarrow>
     while_gcheck N a run st = while_gcheck N a run st'"
  by (subst while_gcheck.simps) simp

lemma ends_loop_iff:
  assumes "gcheck st"
  shows "ends_loop N a s \<longleftrightarrow> (case loop_body N a s st of Inl e \<Rightarrow> True | Inr st' \<Rightarrow> \<not> gcheck st')"
  using assms unfolding ends_loop_def loop_body_def
  by (auto simp: Let_def split: sum.splits)

lemma calls_loop_body: "loop_body N a s st = Inr st' \<Longrightarrow> calls st' = Suc (calls st)"
  by (auto simp: loop_body_def Let_def split: sum.splits)

text \<open>The loop returns at the first pass that ends it.\<close>
lemma while_gcheck_first:
  "gcheck st \<Longrightarrow> \<forall>j<n. \<not> ends_loop N a (run (calls st + j)) \<Longrightarrow>
     ends_loop N a (run (calls st + n)) \<Longrightarrow>
     while_gcheck N a run st =
       Some (loop_body N a (run (calls st + n)) \<lparr>gcheck = True, guesses = [], calls = calls st + n\<rparr>)"
proof (induction n arbitrary: st)
  case 0
  let ?c = "\<lparr>gcheck = True, guesses = [], calls = calls st\<rparr>"
  have same: "loop_body N a (run (calls st)) st = loop_body N a (run (calls st)) ?c"
    using "0.prems"(1) by (intro loop_body_cong) simp_all
  show ?case
  proof (cases "loop_body N a (run (calls st)) st")
    case (Inl e)
    then show ?thesis using while_gcheck_raise[where run=run, OF "0.prems"(1) Inl] same by simp
  next
    case (Inr st')
    then have "\<not> gcheck st'" using "0.prems" by (simp add: ends_loop_iff[of st])
    then show ?thesis
      using while_gcheck_pass[where run=run, OF "0.prems"(1) Inr] while_gcheck_done[of st'] Inr same by simp
  qed
next
  case (Suc n)
  have ne: "\<not> ends_loop N a (run (calls st))" using Suc.prems(2) by force
  then obtain st' where b: "loop_body N a (run (calls st)) st = Inr st'" and g: "gcheck st'"
    using Suc.prems(1) by (auto simp: ends_loop_iff[of st] split: sum.splits)
  have c: "calls st' = Suc (calls st)" using b by (rule calls_loop_body)
  have "\<forall>j<n. \<not> ends_loop N a (run (calls st' + j))"
  proof (intro allI impI)
    fix j assume "j < n"
    then have "Suc j < Suc n" by simp
    with Suc.prems(2) have "\<not> ends_loop N a (run (calls st + Suc j))" by blast
    then show "\<not> ends_loop N a (run (calls st' + j))" using c by simp
  qed
  moreover have "ends_loop N a (run (calls st' + n))" using Suc.prems(3) c by simp
  ultimately have "while_gcheck N a run st' =
       Some (loop_body N a (run (calls st' + n)) \<lparr>gcheck = True, guesses = [], calls = calls st' + n\<rparr>)"
    using Suc.IH[OF g] by blast
  then show ?case using while_gcheck_pass[where run=run, OF Suc.prems(1) b] c by simp
qed

text \<open>When it returns, some pass has ended it.\<close>
lemma while_gcheck_returns:
  "while_gcheck N a run st = Some res \<Longrightarrow> gcheck st \<Longrightarrow> \<exists>j. ends_loop N a (run (calls st + j))"
proof (induction arbitrary: rule: while_gcheck.raw_induct[rotated 1, consumes 1])
  case (1 w N a run st res)
  show ?case
  proof (cases "loop_body N a (run (calls st)) st")
    case (Inl e)
    then have "ends_loop N a (run (calls st + 0))" using "1.prems" by (simp add: ends_loop_iff[of st])
    then show ?thesis by blast
  next
    case (Inr st')
    show ?thesis
    proof (cases "gcheck st'")
      case True
      have "w N a run st' = Some res" using "1.hyps" "1.prems" Inr by simp
      then obtain j where "ends_loop N a (run (calls st' + j))" using "1.IH" True by blast
      moreover have "calls st' = Suc (calls st)" using Inr by (rule calls_loop_body)
      ultimately have "ends_loop N a (run (calls st + Suc j))" by simp
      then show ?thesis by blast
    next
      case False
      then have "ends_loop N a (run (calls st + 0))" using "1.prems" Inr by (simp add: ends_loop_iff[of st])
      then show ?thesis by blast
    qed
  qed
qed

lemma while_gcheck_never:
  assumes "gcheck st" and "\<forall>j. \<not> ends_loop N a (run (calls st + j))"
  shows "while_gcheck N a run st = None"
proof (cases "while_gcheck N a run st")
  case None
  then show ?thesis .
next
  case (Some res)
  then have "\<exists>j. ends_loop N a (run (calls st + j))"
    using assms(1) by (rule while_gcheck_returns)
  then show ?thesis using assms(2) by blast
qed

lemma while_gcheck_from_start:
  "(\<exists>res. while_gcheck N a run \<lparr>gcheck = True, guesses = [], calls = 0\<rparr> = Some res)
     \<longleftrightarrow> (\<exists>i. ends_loop N a (run i))"
proof
  assume "\<exists>res. while_gcheck N a run \<lparr>gcheck = True, guesses = [], calls = 0\<rparr> = Some res"
  then obtain res where "while_gcheck N a run \<lparr>gcheck = True, guesses = [], calls = 0\<rparr> = Some res"
    by blast
  from while_gcheck_returns[OF this] show "\<exists>i. ends_loop N a (run i)" by simp
next
  assume "\<exists>i. ends_loop N a (run i)"
  then obtain i where i: "ends_loop N a (run i)" and least: "\<forall>j<i. \<not> ends_loop N a (run j)"
    using exists_least_iff[of "\<lambda>i. ends_loop N a (run i)"] by blast
  let ?st = "\<lparr>gcheck = True, guesses = [], calls = 0\<rparr>"
  have "while_gcheck N a run ?st =
       Some (loop_body N a (run (calls ?st + i)) \<lparr>gcheck = True, guesses = [], calls = calls ?st + i\<rparr>)"
    using i least by (intro while_gcheck_first) simp_all
  then show "\<exists>res. while_gcheck N a run ?st = Some res" by blast
qed

lemma shor_qpe_unfold:
  "shor_qpe k execute =
     map_option (map_sum id guesses)
       (while_gcheck 15 7 (execute 12 8) \<lparr>gcheck = True, guesses = [], calls = 0\<rparr>)"
  by (simp add: shor_qpe_def)

lemma while_gcheck_result:
  assumes "while_gcheck N a run \<lparr>gcheck = True, guesses = [], calls = 0\<rparr> = Some (Inr st)"
  shows "\<exists>i phase r p. (\<forall>j<i. \<not> ends_loop N a (run j)) \<and>
           phase_final (run i) = Inr phase \<and> period_guess phase = Inr r \<and>
           best_approximation 15 phase p r \<and>
           (\<exists>g\<in>set (factor_guesses N a r). g \<noteq> 1 \<and> g \<noteq> N) \<and>
           st = \<lparr>gcheck = False, guesses = factor_guesses N a r, calls = Suc i\<rparr>"
proof -
  let ?st = "\<lparr>gcheck = True, guesses = [], calls = 0\<rparr>"
  from while_gcheck_returns[OF assms] have "\<exists>i. ends_loop N a (run i)" by simp
  then obtain i where i: "ends_loop N a (run i)" and least: "\<forall>j<i. \<not> ends_loop N a (run j)"
    using exists_least_iff[of "\<lambda>i. ends_loop N a (run i)"] by blast
  let ?c = "\<lparr>gcheck = True, guesses = [], calls = i\<rparr>"
  have "while_gcheck N a run ?st =
       Some (loop_body N a (run (calls ?st + i)) \<lparr>gcheck = True, guesses = [], calls = calls ?st + i\<rparr>)"
    using i least by (intro while_gcheck_first) simp_all
  then have body: "loop_body N a (run i) ?c = Inr st" using assms by simp
  then obtain phase where ph: "phase_final (run i) = Inr phase"
    using loop_body_raises[of "run i" _ N a ?c] by (cases "phase_final (run i)") auto
  from loop_body_phase[OF ph, of N a ?c] obtain r p where
    r: "period_guess phase = Inr r"
    and b: "best_approximation 15 phase p r"
    and st: "loop_body N a (run i) ?c =
       Inr \<lparr>gcheck = (if \<exists>g\<in>set (factor_guesses N a r). g \<noteq> 1 \<and> g \<noteq> N then \<not> gcheck ?c else gcheck ?c),
            guesses = factor_guesses N a r, calls = Suc (calls ?c)\<rparr>"
    by blast
  have end_i: "\<not> gcheck st" using i body by (simp add: ends_loop_iff[of ?c])
  have st_eq: "st = \<lparr>gcheck = (if \<exists>g\<in>set (factor_guesses N a r). g \<noteq> 1 \<and> g \<noteq> N then False else True),
            guesses = factor_guesses N a r, calls = Suc i\<rparr>"
    using body st by (auto split: if_splits)
  then have found: "\<exists>g\<in>set (factor_guesses N a r). g \<noteq> 1 \<and> g \<noteq> N"
    using end_i by (auto split: if_splits)
  then have "st = \<lparr>gcheck = False, guesses = factor_guesses N a r, calls = Suc i\<rparr>"
    using st_eq by simp
  then show ?thesis using least ph r b found by blast
qed

lemma shor_qpe_result:
  assumes "shor_qpe k execute = Some (Inr gs)"
  shows "\<exists>st. while_gcheck 15 7 (execute 12 8) \<lparr>gcheck = True, guesses = [], calls = 0\<rparr> = Some (Inr st)
            \<and> gs = guesses st"
proof -
  from assms obtain z where
    w: "while_gcheck 15 7 (execute 12 8) \<lparr>gcheck = True, guesses = [], calls = 0\<rparr> = Some z"
    and z: "map_sum id guesses z = Inr gs"
    unfolding shor_qpe_unfold by auto
  from z obtain st where "z = Inr st" "gs = guesses st" by (cases z) auto
  with w show ?thesis by blast
qed

lemma while_gcheck_at_once:
  assumes "ends_loop N a (run 0)"
  shows "while_gcheck N a run \<lparr>gcheck = True, guesses = [], calls = 0\<rparr> =
           Some (loop_body N a (run 0) \<lparr>gcheck = True, guesses = [], calls = 0\<rparr>)"
  using while_gcheck_first[of "\<lparr>gcheck = True, guesses = [], calls = 0\<rparr>" 0 N a run] assms
  by simp

lemma while_gcheck_unfold_pass:
  assumes g: "gcheck st" and ph: "phase_final (run (calls st)) = Inr phase"
    and r: "period_guess phase = Inr r"
  shows "while_gcheck N a run st =
     (if \<exists>g\<in>set (factor_guesses N a r). g \<noteq> 1 \<and> g \<noteq> N
      then Some (Inr \<lparr>gcheck = False, guesses = factor_guesses N a r, calls = Suc (calls st)\<rparr>)
      else while_gcheck N a run \<lparr>gcheck = True, guesses = factor_guesses N a r, calls = Suc (calls st)\<rparr>)"
proof -
  let ?found = "\<exists>g\<in>set (factor_guesses N a r). g \<noteq> 1 \<and> g \<noteq> N"
  have body: "loop_body N a (run (calls st)) st =
      Inr \<lparr>gcheck = \<not> ?found, guesses = factor_guesses N a r, calls = Suc (calls st)\<rparr>"
    using g by (simp add: loop_body_def ph r check_factor_guesses Let_def)
  show ?thesis
  proof (cases ?found)
    case True
    then have "loop_body N a (run (calls st)) st =
        Inr \<lparr>gcheck = False, guesses = factor_guesses N a r, calls = Suc (calls st)\<rparr>"
      using body by simp
    from while_gcheck_pass[where run=run, OF g this]
    have "while_gcheck N a run st =
        Some (Inr \<lparr>gcheck = False, guesses = factor_guesses N a r, calls = Suc (calls st)\<rparr>)"
      by (simp add: while_gcheck_done)
    then show ?thesis by (simp only: if_P[OF True])
  next
    case False
    then have "loop_body N a (run (calls st)) st =
        Inr \<lparr>gcheck = True, guesses = factor_guesses N a r, calls = Suc (calls st)\<rparr>"
      using body by simp
    from while_gcheck_pass[where run=run, OF g this]
    show ?thesis by (simp only: if_not_P[OF False])
  qed
qed

lemma synthetic_at_once:
  assumes "ends_loop N a sample"
  shows "while_gcheck N a (synthetic_oracle sample k m) \<lparr>gcheck = True, guesses = [], calls = 0\<rparr> =
           Some (loop_body N a sample \<lparr>gcheck = True, guesses = [], calls = 0\<rparr>)"
  using while_gcheck_at_once[where run="synthetic_oracle sample k m" and N=N and a=a] assms
  by (simp add: synthetic_oracle_def)

lemma synthetic_never:
  assumes "\<not> ends_loop N a sample"
  shows "while_gcheck N a (synthetic_oracle sample k m) \<lparr>gcheck = True, guesses = [], calls = 0\<rparr> = None"
  using assms by (intro while_gcheck_never) (simp_all add: synthetic_oracle_def)

lemma zero_sample_rejected:
  "\<not> ends_loop 15 7 [False, False, False, False, False, False, False, False]"
  by code_simp

lemma long_key_ends_loop:
  "shor_qpe k (synthetic_oracle (True # replicate 14334 False)) = Some (Inl ValueError)"
proof -
  have b: "loop_body 15 7 (True # replicate 14334 False) \<lparr>gcheck = True, guesses = [], calls = 0\<rparr>
      = Inl ValueError"
    using long_key_raises by (rule loop_body_raises)
  then have e: "ends_loop 15 7 (True # replicate 14334 False)" by (simp only: ends_loop_def sum.case)
  show ?thesis unfolding shor_qpe_unfold synthetic_at_once[OF e] b by simp
qed

section \<open>Fractions close to the phase\<close>

lemma best_approximation_unique:
  assumes "best_approximation N x p q" and "best_approximation N x p' q'"
  shows "q' = q"
proof (rule ccontr)
  assume "q' \<noteq> q"
  then consider "q' < q" | "q < q'" by linarith
  then show False
  proof cases
    case 1
    have "\<bar>x - of_int p / of_int q\<bar> < \<bar>x - of_int p' / of_int q'\<bar>"
      using assms 1 by (simp add: best_approximation_def)
    moreover have "\<bar>x - of_int p' / of_int q'\<bar> \<le> \<bar>x - of_int p / of_int q\<bar>"
      using assms by (simp add: best_approximation_def)
    ultimately show False by simp
  next
    case 2
    have "\<bar>x - of_int p' / of_int q'\<bar> < \<bar>x - of_int p / of_int q\<bar>"
      using assms 2 by (simp add: best_approximation_def)
    moreover have "\<bar>x - of_int p / of_int q\<bar> \<le> \<bar>x - of_int p' / of_int q'\<bar>"
      using assms by (simp add: best_approximation_def)
    ultimately show False by simp
  qed
qed

lemma frac_diff_abs_ge:
  fixes p q k r :: int
  assumes q: "0 < q" and r: "0 < r" and ne: "(of_int p / of_int q :: rat) \<noteq> of_int k / of_int r"
  shows "1 / of_int (q * r) \<le> \<bar>(of_int p / of_int q :: rat) - of_int k / of_int r\<bar>"
proof -
  have qr: "0 < q * r" using q r by simp
  have "p * r \<noteq> k * q" using ne q r by (simp add: frac_eq_iff)
  then have "1 \<le> \<bar>p * r - k * q\<bar>" by linarith
  then have "(1::rat) \<le> of_int \<bar>p * r - k * q\<bar>" by (simp only: of_int_1_le_iff)
  moreover have "(0::rat) \<le> of_int (q * r)" using qr by (simp only: of_int_0_le_iff)
  ultimately have "(1::rat) / of_int (q * r) \<le> of_int \<bar>p * r - k * q\<bar> / of_int (q * r)"
    by (rule divide_right_mono)
  moreover have "(of_int p / of_int q :: rat) - of_int k / of_int r = of_int (p * r - k * q) / of_int (q * r)"
    using q r by (intro frac_diff) simp_all
  ultimately show ?thesis by (simp only: abs_frac[OF qr])
qed

lemma best_approximation_close:
  fixes x :: rat and k r N p q :: int
  assumes r: "1 \<le> r" "r \<le> N" and cop: "coprime k r"
    and close: "\<bar>x - of_int k / of_int r\<bar> < 1 / of_int (2 * N * r)"
    and best: "best_approximation N x p q"
  shows "q = r"
proof -
  from best have q: "1 \<le> q" "q \<le> N"
    and least: "\<And>p' q'. 1 \<le> q' \<Longrightarrow> q' \<le> N \<Longrightarrow> \<bar>x - of_int p / of_int q\<bar> \<le> \<bar>x - of_int p' / of_int q'\<bar>"
    and strict: "\<And>p' q'. 1 \<le> q' \<Longrightarrow> q' < q \<Longrightarrow> \<bar>x - of_int p / of_int q\<bar> < \<bar>x - of_int p' / of_int q'\<bar>"
    by (simp_all add: best_approximation_def)
  have qpos: "0 < q" and rpos: "0 < r" and Npos: "0 < N" using q r by simp_all
  define w :: rat where "w = of_int p / of_int q"
  define t :: rat where "t = of_int k / of_int r"
  define e :: rat where "e = 1 / of_int (2 * N * r)"
  have le: "\<bar>x - w\<bar> \<le> \<bar>x - t\<bar>" unfolding w_def t_def using least[OF r] .
  have wt: "\<bar>w - t\<bar> < 2 * e"
  proof -
    have "\<bar>w - t\<bar> \<le> \<bar>x - w\<bar> + \<bar>x - t\<bar>" by linarith
    moreover have "\<bar>x - t\<bar> < e" using close by (simp only: t_def e_def)
    ultimately show ?thesis using le by linarith
  qed
  have two_e: "2 * e = 1 / of_int (N * r)" by (simp add: e_def)
  have eq: "w = t"
  proof (rule ccontr)
    assume "w \<noteq> t"
    then have "1 / of_int (q * r) \<le> \<bar>w - t\<bar>"
      unfolding w_def t_def using qpos rpos by (intro frac_diff_abs_ge)
    moreover have "(1::rat) / of_int (N * r) \<le> 1 / of_int (q * r)"
    proof -
      have "q * r \<le> N * r" using q rpos by (intro mult_right_mono) simp_all
      then have "(of_int (q * r) :: rat) \<le> of_int (N * r)" by (simp only: of_int_le_iff)
      moreover have "(0::rat) < of_int (q * r)" using qpos rpos by simp
      ultimately show ?thesis by (intro divide_left_mono) simp_all
    qed
    ultimately show False using wt two_e by linarith
  qed
  have "r \<le> q"
    using eq unfolding w_def t_def by (intro lowest_terms_le[OF cop rpos qpos])
  moreover have "\<not> r < q"
  proof
    assume "r < q"
    from strict[OF r(1) this, of k] show False using eq by (simp add: w_def t_def)
  qed
  ultimately show ?thesis by simp
qed

lemma floor_phase_close:
  fixes k r :: int
  assumes r: "0 < r"
  shows "\<bar>(of_int ((2 ^ m * k) div r) / 2 ^ m :: rat) - of_int k / of_int r\<bar> < 1 / 2 ^ m"
proof -
  define v where "v = (2 ^ m * k) div r"
  define c where "c = (2 ^ m * k) mod r"
  have split: "2 ^ m * k = v * r + c" by (simp add: v_def c_def)
  have c: "0 \<le> c" "c < r" using r by (simp_all add: c_def)
  have pos: "(0::int) < 2 ^ m" by simp
  have "(of_int k / of_int r :: rat) - of_int v / of_int (2 ^ m) = of_int (k * 2 ^ m - v * r) / of_int (r * 2 ^ m)"
    using r by (intro frac_diff) simp_all
  also have "k * 2 ^ m - v * r = c" using split by (simp add: algebra_simps)
  finally have d: "(of_int k / of_int r :: rat) - of_int v / of_int (2 ^ m) = of_int c / of_int (r * 2 ^ m)" .
  have rm: "0 < r * 2 ^ m" using r by simp
  have "\<bar>(of_int v / of_int (2 ^ m) :: rat) - of_int k / of_int r\<bar> = \<bar>of_int c / of_int (r * 2 ^ m)\<bar>"
    using d by (simp only: abs_minus_commute[of "of_int v / of_int (2 ^ m)"])
  also have "\<dots> = of_int c / of_int (r * 2 ^ m)"
    using c(1) by (simp only: abs_frac[OF rm] abs_of_nonneg)
  also have "\<dots> < of_int 1 / of_int (2 ^ m)"
    using c(2) r by (simp only: frac_less_iff[OF rm pos]) simp
  finally show ?thesis by (simp add: v_def)
qed

lemma is_order_pos: "is_order N a r \<Longrightarrow> 1 \<le> r"
  by (simp add: is_order_def)


text \<open>
  An order of at most 15, the bound written in \<open>limit_denominator(15)\<close>, is the period
  guess of the phase \<open>floor(2^m k / r) / 2^m\<close> as soon as \<open>30 r \<le> 2^m\<close>.
\<close>
lemma small_order_recovered:
  assumes "is_order N a r" and "r \<le> 15" and "coprime k r" and "30 * r \<le> 2 ^ m"
  shows "period_guess (of_int ((2 ^ m * k) div r) / 2 ^ m) = Inr r"
proof -
  define x :: rat where "x = of_int ((2 ^ m * k) div r) / 2 ^ m"
  have r1: "1 \<le> r" using assms(1) by (rule is_order_pos)
  obtain q p where g: "period_guess x = Inr q" and b: "best_approximation 15 x p q"
    using period_guess_total by blast
  have "\<bar>x - of_int k / of_int r\<bar> < 1 / 2 ^ m"
    unfolding x_def using r1 by (intro floor_phase_close) simp
  moreover have "(1::rat) / 2 ^ m \<le> 1 / of_int (2 * 15 * r)"
  proof -
    have "(of_int (30 * r) :: rat) \<le> of_int (2 ^ m)" using assms(4) by (simp only: of_int_le_iff)
    moreover have "(0::rat) < of_int (30 * r)" using r1 by simp
    ultimately have "(1::rat) / of_int (2 ^ m) \<le> 1 / of_int (30 * r)"
      by (intro divide_left_mono) simp_all
    then show ?thesis by simp
  qed
  ultimately have "\<bar>x - of_int k / of_int r\<bar> < 1 / of_int (2 * 15 * r)" by linarith
  from best_approximation_close[OF r1 assms(2) assms(3) this b] g
  show ?thesis by (simp add: x_def)
qed

section \<open>The claims\<close>

subsection \<open>C1: termination\<close>

text \<open>
  Claim C1. \<open>shor_qpe\<close> has no bound on the number of attempts and no failure result.
  For every sequence of measured samples it comes to an end, by a return or by an
  exception, if and only if some sample of the sequence is empty (\<open>int\<close> raises
  \<open>ValueError\<close>), or has a value of more than 4300 decimal digits (\<open>print\<close> raises
  \<open>ValueError\<close>), or has a phase whose period guess \<open>r\<close> gives a guess
  \<open>gcd(7^(r//2) - 1, 15)\<close> or \<open>gcd(7^(r//2) + 1, 15)\<close> that is neither 1 nor 15; on every
  other sequence it never comes to an end.
\<close>

theorem shor_qpe_returns_iff:
  "(\<exists>res. shor_qpe k execute = Some res) \<longleftrightarrow>
   (\<exists>i. execute 12 8 i = [] \<or>
        (\<exists>v. int_base2 (execute 12 8 i) = Inr v \<and> 4300 < decimal_digits v) \<or>
        (\<exists>phase r. phase_final (execute 12 8 i) = Inr phase \<and> period_guess phase = Inr r \<and>
           (\<exists>g\<in>{gcd (7 ^ nat (r div 2) - 1) 15, gcd (7 ^ nat (r div 2) + 1) 15}.
              g \<noteq> 1 \<and> g \<noteq> (15::int))))"
proof -
  have "(\<exists>res. shor_qpe k execute = Some res) \<longleftrightarrow> (\<exists>i. ends_loop 15 7 (execute 12 8 i))"
    unfolding shor_qpe_unfold using while_gcheck_from_start[of 15 7 "execute 12 8"] by auto
  also have "\<dots> \<longleftrightarrow>
   (\<exists>i. execute 12 8 i = [] \<or>
        (\<exists>v. int_base2 (execute 12 8 i) = Inr v \<and> 4300 < decimal_digits v) \<or>
        (\<exists>phase r. phase_final (execute 12 8 i) = Inr phase \<and> period_guess phase = Inr r \<and>
           (\<exists>g\<in>set (factor_guesses 15 7 r). g \<noteq> 1 \<and> g \<noteq> 15)))"
    by (simp only: ends_loop_meaning)
  finally show ?thesis by (simp add: factor_guesses_def)
qed

text \<open>
  Claim C1 as the specification states it, that the procedure terminates on every
  sequence of samples, fails: when every execution measures \<open>00000000\<close> (phase 0,
  \<open>r = 1\<close>, guesses \<open>[15, 1]\<close>) the loop never ends.
\<close>

theorem shor_qpe_loops_forever:
  "shor_qpe 12 (synthetic_oracle [False, False, False, False, False, False, False, False]) = None"
proof -
  have "while_gcheck 15 7 (synthetic_oracle [False, False, False, False, False, False, False, False] 12 8)
          \<lparr>gcheck = True, guesses = [], calls = 0\<rparr> = None"
    using zero_sample_rejected by (rule synthetic_never)
  then show ?thesis by (simp add: shor_qpe_unfold)
qed

subsection \<open>C2: which attempts return a pair\<close>

text \<open>
  Claim C2. The parity of \<open>r\<close> is never tested. In every attempt, with \<open>r\<close> the period
  guess of the measured sample, the guesses are \<open>gcd(a^(r//2) - 1, N)\<close> and
  \<open>gcd(a^(r//2) + 1, N)\<close> with the floor \<open>r//2\<close>: when at least one of them is neither 1
  nor \<open>N\<close> the loop returns this pair, and otherwise the attempt fails and the loop
  goes on to the next attempt.
\<close>

theorem pair_returned_iff_nontrivial_guess:
  assumes "gcheck st" and "phase_final (run (calls st)) = Inr phase" and "period_guess phase = Inr r"
  shows "while_gcheck N a run st =
     (if \<exists>g\<in>set (factor_guesses N a r). g \<noteq> 1 \<and> g \<noteq> N
      then Some (Inr \<lparr>gcheck = False, guesses = factor_guesses N a r, calls = Suc (calls st)\<rparr>)
      else while_gcheck N a run \<lparr>gcheck = True, guesses = factor_guesses N a r, calls = Suc (calls st)\<rparr>)"
  using assms by (rule while_gcheck_unfold_pass)

theorem pair_returned_iff_nontrivial_guess_witness:
  "gcheck \<lparr>gcheck = True, guesses = [], calls = 0\<rparr> \<and>
   phase_final (synthetic_oracle [True, True, False, False, False, False, False, False] 12 8
      (calls \<lparr>gcheck = True, guesses = [], calls = 0\<rparr>)) = Inr (3 / 4) \<and>
   period_guess (3 / 4) = Inr 4 \<and>
   while_gcheck 15 7 (synthetic_oracle [True, True, False, False, False, False, False, False] 12 8)
       \<lparr>gcheck = True, guesses = [], calls = 0\<rparr> =
     Some (Inr \<lparr>gcheck = False, guesses = [3, 5], calls = 1\<rparr>)"
proof -
  have g: "gcheck \<lparr>gcheck = True, guesses = [], calls = 0\<rparr>" by simp
  have ph: "phase_final (synthetic_oracle [True, True, False, False, False, False, False, False] 12 8
      (calls \<lparr>gcheck = True, guesses = [], calls = 0\<rparr>)) = Inr (3 / 4)"
    unfolding synthetic_oracle_def by code_simp
  have r: "period_guess (3 / 4) = Inr 4" by code_simp
  have f: "factor_guesses 15 7 4 = [3, 5]" by code_simp
  show ?thesis
    using pair_returned_iff_nontrivial_guess
      [where run="synthetic_oracle [True, True, False, False, False, False, False, False] 12 8"
         and st="\<lparr>gcheck = True, guesses = [], calls = 0\<rparr>" and N=15 and a=7, OF g ph r] g ph r
    unfolding f by simp
qed

text \<open>
  Claim C2 as the specification states it, that an attempt with an odd \<open>r\<close> fails, does
  not hold: the sample \<open>01010101\<close> has the phase 85/256 and the odd period guess
  \<open>r = 3\<close>, and the pair \<open>[gcd(7 - 1, 15), gcd(7 + 1, 15)] = [3, 1]\<close> is returned.
\<close>

theorem odd_period_guess_returned:
  "phase_final [False, True, False, True, False, True, False, True] = Inr (85 / 256) \<and>
   period_guess (85 / 256) = Inr 3 \<and> odd (3::int) \<and>
   factor_guesses 15 7 3 = [3, 1] \<and>
   shor_qpe 12 (synthetic_oracle [False, True, False, True, False, True, False, True]) = Some (Inr [3, 1])"
proof -
  have 1: "phase_final [False, True, False, True, False, True, False, True] = Inr (85 / 256)"
    by code_simp
  have 2: "period_guess (85 / 256) = Inr 3" by code_simp
  have 3: "factor_guesses 15 7 3 = [3, 1]" by code_simp
  have e: "ends_loop 15 7 [False, True, False, True, False, True, False, True]" by code_simp
  have b: "loop_body 15 7 [False, True, False, True, False, True, False, True]
      \<lparr>gcheck = True, guesses = [], calls = 0\<rparr> = Inr \<lparr>gcheck = False, guesses = [3, 1], calls = 1\<rparr>"
    by code_simp
  have 4: "shor_qpe 12 (synthetic_oracle [False, True, False, True, False, True, False, True]) = Some (Inr [3, 1])"
    unfolding shor_qpe_unfold synthetic_at_once[OF e] b by simp
  show ?thesis using 1 2 3 4 by simp
qed

subsection \<open>C4: the returned pair\<close>

text \<open>
  Claim C4. Whenever \<open>shor_qpe\<close> returns a pair, every member of the pair that is neither
  1 nor 15 is a divisor of 15 (strictly between 1 and 15), and the pair has such a
  member.
\<close>

theorem returned_pair_has_factor:
  assumes "shor_qpe k execute = Some (Inr gs)"
  shows "(\<forall>g\<in>set gs. g \<noteq> 1 \<and> g \<noteq> 15 \<longrightarrow> g dvd 15 \<and> 1 < g \<and> g < 15) \<and>
         (\<exists>g\<in>set gs. g \<noteq> 1 \<and> g \<noteq> 15 \<and> g dvd 15)"
proof -
  from shor_qpe_result[OF assms] obtain st where
    w: "while_gcheck 15 7 (execute 12 8) \<lparr>gcheck = True, guesses = [], calls = 0\<rparr> = Some (Inr st)"
    and gs: "gs = guesses st" by blast
  from while_gcheck_result[OF w] obtain i r where
    found: "\<exists>g\<in>set (factor_guesses 15 7 r). g \<noteq> 1 \<and> g \<noteq> 15"
    and st': "st = \<lparr>gcheck = False, guesses = factor_guesses 15 7 r, calls = Suc i\<rparr>" by blast
  have st: "guesses st = factor_guesses 15 7 r" unfolding st' by simp
  have dv: "\<forall>g\<in>set gs. g dvd 15 \<and> 0 < g" unfolding gs st by (simp add: factor_guesses_def)
  have "g \<le> 15" if "g \<in> set gs" for g using dv that zdvd_imp_le[of g 15] by simp
  then show ?thesis using dv found unfolding gs st by force
qed

theorem returned_pair_has_factor_witness:
  "shor_qpe 12 (synthetic_oracle [False, True, False, False, False, False, False, False]) = Some (Inr [3, 5]) \<and>
   (\<exists>g\<in>set [3, 5]. g \<noteq> 1 \<and> g \<noteq> 15 \<and> g dvd (15::int))"
proof -
  have e: "ends_loop 15 7 [False, True, False, False, False, False, False, False]" by code_simp
  have b: "loop_body 15 7 [False, True, False, False, False, False, False, False]
      \<lparr>gcheck = True, guesses = [], calls = 0\<rparr> = Inr \<lparr>gcheck = False, guesses = [3, 5], calls = 1\<rparr>"
    by code_simp
  have r: "shor_qpe 12 (synthetic_oracle [False, True, False, False, False, False, False, False]) = Some (Inr [3, 5])"
    unfolding shor_qpe_unfold synthetic_at_once[OF e] b by simp
  from returned_pair_has_factor[OF r] r show ?thesis by blast
qed

subsection \<open>C5: the period guess\<close>

text \<open>
  Claim C5. For every phase, hence for every sampled phase, the period guess \<open>r\<close> of
  step 3 is the denominator \<open>q\<close> of a fraction \<open>p/q\<close> with \<open>1 \<le> q \<le> 15\<close> that minimises
  the distance to the phase and has the smallest denominator among the fractions at
  that distance; this denominator is unique, and \<open>1 \<le> r \<le> 15\<close>.
\<close>

theorem period_guess_is_best_denominator:
  "\<exists>r p. period_guess phase = Inr r \<and> 1 \<le> r \<and> r \<le> 15 \<and>
      best_approximation 15 phase p r \<and>
      (\<forall>p' q'. best_approximation 15 phase p' q' \<longrightarrow> q' = r)"
proof -
  obtain r p where r: "period_guess phase = Inr r" and b: "best_approximation 15 phase p r"
    using period_guess_total by blast
  have "1 \<le> r \<and> r \<le> 15" using b by (simp add: best_approximation_def)
  moreover have "\<forall>p' q'. best_approximation 15 phase p' q' \<longrightarrow> q' = r"
    using best_approximation_unique[OF b] by blast
  ultimately show ?thesis using r b by blast
qed

theorem period_guess_is_best_denominator_witness:
  "phase_final [True, False, True, False, True, False, True, True] = Inr (171 / 256) \<and>
   period_guess (171 / 256) = Inr 3 \<and>
   (\<exists>p. best_approximation 15 (171 / 256) p 3)"
proof -
  have ph: "phase_final [True, False, True, False, True, False, True, True] = Inr (171 / 256)"
    by code_simp
  have r: "period_guess (171 / 256) = Inr 3" by code_simp
  from period_guess_is_best_denominator[of "171 / 256"] ph r show ?thesis by auto
qed

subsection \<open>C6: the sample \<open>0100\<close>\<close>

text \<open>
  Claim C6. With \<open>N = 15\<close> and \<open>a = 7\<close>, the sample \<open>0100\<close> has the phase 4/16 = 1/4, its
  best approximation is 1/4 and \<open>r = 4\<close>; the pair of guesses is
  \<open>[gcd(7^2 - 1, 15), gcd(7^2 + 1, 15)] = [3, 5]\<close>, and it is returned on that attempt,
  after one execution of the circuit.
\<close>

theorem sample_0100_gives_3_and_5:
  "phase_final [False, True, False, False] = Inr (1 / 4) \<and>
   limit_denominator (1 / 4) 15 = Inr (1 / 4) \<and>
   period_guess (1 / 4) = Inr 4 \<and>
   factor_guesses 15 7 4 = [gcd (7 ^ 2 - 1) 15, gcd (7 ^ 2 + 1) 15] \<and>
   factor_guesses 15 7 4 = [3, 5] \<and>
   while_gcheck 15 7 (synthetic_oracle [False, True, False, False] 12 8)
       \<lparr>gcheck = True, guesses = [], calls = 0\<rparr> =
     Some (Inr \<lparr>gcheck = False, guesses = [3, 5], calls = 1\<rparr>) \<and>
   shor_qpe k (synthetic_oracle [False, True, False, False]) = Some (Inr [3, 5])"
proof -
  have 1: "phase_final [False, True, False, False] = Inr (1 / 4)" by code_simp
  have 2: "limit_denominator (1 / 4) 15 = Inr (1 / 4)" by code_simp
  have 3: "period_guess (1 / 4) = Inr 4" by code_simp
  have 4: "factor_guesses 15 7 4 = [gcd (7 ^ 2 - 1) 15, gcd (7 ^ 2 + 1) 15]" by code_simp
  have 5: "factor_guesses 15 7 4 = [3, 5]" by code_simp
  have e: "ends_loop 15 7 (synthetic_oracle [False, True, False, False] 12 8 0)"
    unfolding synthetic_oracle_def by code_simp
  have b: "loop_body 15 7 (synthetic_oracle [False, True, False, False] 12 8 0)
      \<lparr>gcheck = True, guesses = [], calls = 0\<rparr> = Inr \<lparr>gcheck = False, guesses = [3, 5], calls = 1\<rparr>"
    unfolding synthetic_oracle_def by code_simp
  have 6: "while_gcheck 15 7 (synthetic_oracle [False, True, False, False] 12 8)
       \<lparr>gcheck = True, guesses = [], calls = 0\<rparr> =
     Some (Inr \<lparr>gcheck = False, guesses = [3, 5], calls = 1\<rparr>)"
    using while_gcheck_at_once[where run="synthetic_oracle [False, True, False, False] 12 8", OF e] b
    by simp
  have 7: "shor_qpe k (synthetic_oracle [False, True, False, False]) = Some (Inr [3, 5])"
    unfolding shor_qpe_unfold 6 by simp
  show ?thesis using 1 2 3 4 5 6 7 by blast
qed

subsection \<open>C7: recovering the order\<close>



subsection \<open>C8: determinism\<close>

text \<open>
  Claim C8. Two runs of \<open>shor_qpe\<close> with the same argument whose executions of the
  circuit measure the same samples have the same outcome: the same pair after the same
  number of executions, or no return in both. When every execution measures one and the
  same sample, the pair is returned after one execution, or the loop never ends.
\<close>

theorem same_samples_same_result:
  assumes "\<forall>i. execute1 12 8 i = execute2 12 8 i"
  shows "shor_qpe k execute1 = shor_qpe k execute2 \<and>
         while_gcheck 15 7 (execute1 12 8) \<lparr>gcheck = True, guesses = [], calls = 0\<rparr> =
           while_gcheck 15 7 (execute2 12 8) \<lparr>gcheck = True, guesses = [], calls = 0\<rparr> \<and>
         ((\<forall>i. execute1 12 8 i = sample) \<longrightarrow>
            while_gcheck 15 7 (execute1 12 8) \<lparr>gcheck = True, guesses = [], calls = 0\<rparr> =
              (if ends_loop 15 7 sample
               then Some (loop_body 15 7 sample \<lparr>gcheck = True, guesses = [], calls = 0\<rparr>)
               else None))"
proof -
  have same: "execute1 12 8 = execute2 12 8"
    using assms by (intro ext) simp
  have "while_gcheck 15 7 (execute1 12 8) \<lparr>gcheck = True, guesses = [], calls = 0\<rparr> =
      (if ends_loop 15 7 sample
       then Some (loop_body 15 7 sample \<lparr>gcheck = True, guesses = [], calls = 0\<rparr>)
       else None)" if "\<forall>i. execute1 12 8 i = sample"
  proof -
    have "execute1 12 8 = synthetic_oracle sample 12 8"
      using that by (intro ext) (simp add: synthetic_oracle_def)
    then show ?thesis
      using synthetic_at_once[of 15 7 sample 12 8] synthetic_never[of 15 7 sample 12 8]
      by simp
  qed
  then show ?thesis unfolding shor_qpe_unfold same by blast
qed

theorem same_samples_same_result_witness:
  "(\<forall>i. synthetic_oracle [True, False, True, True, True, True, True, True] 12 8 i
        = synthetic_oracle [True, False, True, True, True, True, True, True] 12 8 i) \<and>
   shor_qpe 12 (synthetic_oracle [True, False, True, True, True, True, True, True]) = Some (Inr [3, 5]) \<and>
   while_gcheck 15 7 (synthetic_oracle [True, False, True, True, True, True, True, True] 12 8)
       \<lparr>gcheck = True, guesses = [], calls = 0\<rparr> =
     Some (Inr \<lparr>gcheck = False, guesses = [3, 5], calls = 1\<rparr>)"
proof -
  have s: "\<forall>i. synthetic_oracle [True, False, True, True, True, True, True, True] 12 8 i
        = synthetic_oracle [True, False, True, True, True, True, True, True] 12 8 i"
    by simp
  have c: "\<forall>i. synthetic_oracle [True, False, True, True, True, True, True, True] 12 8 i
        = [True, False, True, True, True, True, True, True]"
    by (simp add: synthetic_oracle_def)
  have e: "ends_loop 15 7 [True, False, True, True, True, True, True, True]" by code_simp
  have b: "loop_body 15 7 [True, False, True, True, True, True, True, True]
      \<lparr>gcheck = True, guesses = [], calls = 0\<rparr> = Inr \<lparr>gcheck = False, guesses = [3, 5], calls = 1\<rparr>"
    by code_simp
  from same_samples_same_result
      [where ?execute1.0="synthetic_oracle [True, False, True, True, True, True, True, True]"
         and ?execute2.0="synthetic_oracle [True, False, True, True, True, True, True, True]"
         and k=12 and sample="[True, False, True, True, True, True, True, True]", OF s] c e b
  have w: "while_gcheck 15 7 (synthetic_oracle [True, False, True, True, True, True, True, True] 12 8)
       \<lparr>gcheck = True, guesses = [], calls = 0\<rparr> =
     Some (Inr \<lparr>gcheck = False, guesses = [3, 5], calls = 1\<rparr>)"
    by simp
  then show ?thesis using s by (simp add: shor_qpe_unfold)
qed

subsection \<open>C9: the argument \<open>k\<close>\<close>

text \<open>
  Claim C9. The result of \<open>shor_qpe\<close> does not depend on its argument: for any two
  values of \<open>k\<close> and the same executions of the circuit the function makes the same
  computation, with \<open>k = 12\<close>, \<open>m = 8\<close>, \<open>N = 15\<close> and \<open>a = 7\<close>, and returns the same
  guesses.
\<close>

theorem shor_qpe_ignores_argument:
  "shor_qpe k1 execute = shor_qpe k2 execute \<and>
   shor_qpe k1 execute =
     map_option (map_sum id guesses)
       (while_gcheck 15 7 (execute 12 8) \<lparr>gcheck = True, guesses = [], calls = 0\<rparr>)"
  by (simp add: shor_qpe_def)

subsection \<open>C10: the guesses are divisors\<close>

text \<open>
  Claim C10. For a positive \<open>N\<close>, as \<open>N = 15\<close>, every element of \<open>guesses\<close> is a positive
  divisor of \<open>N\<close>: the test \<open>N % guess == 0\<close> of the acceptance check holds for each of
  them, and \<open>gcheck\<close> is flipped exactly when some guess is neither 1 nor \<open>N\<close>.
\<close>

theorem guesses_are_divisors:
  "0 < N \<Longrightarrow>
     (\<forall>g\<in>set (factor_guesses N a r). 0 < g \<and> g dvd N \<and> N mod g = 0) \<and>
     check_guesses N gc (factor_guesses N a r) =
       Inr (if \<exists>g\<in>set (factor_guesses N a r). g \<noteq> 1 \<and> g \<noteq> N then \<not> gc else gc)"
proof -
  assume N: "0 < N"
  have "0 < gcd x N" for x :: int using N by simp
  then have "\<forall>g\<in>set (factor_guesses N a r). 0 < g \<and> g dvd N \<and> N mod g = 0"
    by (simp add: factor_guesses_def)
  then show ?thesis using check_factor_guesses by blast
qed

theorem guesses_are_divisors_witness:
  "(0::int) < 15 \<and> factor_guesses 15 7 4 = [3, 5] \<and> (3::int) dvd 15 \<and> (5::int) dvd 15 \<and>
   check_guesses 15 True (factor_guesses 15 7 4) = Inr False \<and>
   factor_guesses 15 7 1 = [15, 1] \<and>
   check_guesses 15 True (factor_guesses 15 7 1) = Inr True"
proof -
  have g4: "factor_guesses 15 7 4 = [3, 5]" and g1: "factor_guesses 15 7 1 = [15, 1]"
    by code_simp+
  have N: "(0::int) < 15" by simp
  from guesses_are_divisors[OF N, of 7 4 True] guesses_are_divisors[OF N, of 7 1 True]
  show ?thesis by (simp add: g4 g1)
qed

end
